theory Spec2Isabelle
  imports Main "HOL-Library.Sublist"
begin

section \<open>Python values used by app.py\<close>

text \<open>
  A Python \<open>str\<close> is a sequence of Unicode code points; it is modelled as a list of
  natural numbers, one per code point.  \<open>lit\<close> turns an ASCII literal of the source
  into that representation.
\<close>

type_synonym pystr = "nat list"

definition lit :: "string \<Rightarrow> pystr" where
  "lit s = map of_char s"

text \<open>
  The values \<open>json.load\<close> returns.  A float is kept as mantissa and binary exponent
  (value \<open>m * 2^e\<close>) or one of the three special values; a dict keeps its items in
  insertion order.
\<close>

datatype pyfloat = Finite int int | PosInf | NegInf | NaN

datatype json =
    JNone
  | JBool bool
  | JInt int
  | JFloat pyfloat
  | JStr pystr
  | JList "json list"
  | JDict "(pystr \<times> json) list"

text \<open>The exceptions the request handler can meet.\<close>

datatype exn =
    KeyError pystr
  | TypeError
  | AttributeError
  | ValueError
  | UnicodeEncodeError
  | IndexError
  | StructError
  | FileNotFoundError pystr
  | OSError pystr

subsection \<open>Built-in operations\<close>

text \<open>\<open>str(n)\<close> and \<open>f"{n}"\<close> for an int: decimal digits, a minus sign when negative.\<close>

fun digits :: "nat \<Rightarrow> pystr" where
  "digits n = (if n < 10 then [48 + n] else digits (n div 10) @ [48 + n mod 10])"

declare digits.simps [simp del]

definition str_int :: "int \<Rightarrow> pystr" where
  "str_int k = (if k < 0 then 45 # digits (nat (- k)) else digits (nat k))"

text \<open>
  \<open>str(v)\<close> for a value read from JSON.  The \<open>repr\<close> of floats, lists and dicts is
  not spelled out: it is the parameter \<open>repr\<close>.
\<close>

fun py_str :: "(json \<Rightarrow> pystr) \<Rightarrow> json \<Rightarrow> pystr" where
  "py_str repr (JStr s) = s"
| "py_str repr (JInt k) = str_int k"
| "py_str repr (JBool b) = (if b then lit ''True'' else lit ''False'')"
| "py_str repr JNone = lit ''None''"
| "py_str repr v = repr v"

text \<open>\<open>chr(n)\<close>: the one-character string of code point \<open>n\<close>, ValueError beyond U+10FFFF.\<close>

definition chr_py :: "nat \<Rightarrow> exn + pystr" where
  "chr_py n = (if n \<le> 1114111 then Inr [n] else Inl ValueError)"

text \<open>
  \<open>s.replace(old, new)\<close>: every non-overlapping occurrence of \<open>old\<close>, found from the
  left, becomes \<open>new\<close>; an empty \<open>old\<close> matches before every character and at the end.
\<close>

function replace :: "'a list \<Rightarrow> 'a list \<Rightarrow> 'a list \<Rightarrow> 'a list" where
  "replace s old new =
     (if old = [] then new @ concat (map (\<lambda>c. c # new) s)
      else if s = [] then []
      else if prefix old s then new @ replace (drop (length old) s) old new
      else hd s # replace (tl s) old new)"
  by pat_completeness auto
termination
  by (relation "measure (\<lambda>(s, old, new). length s)") auto

declare replace.simps [simp del]

text \<open>\<open>v[key]\<close> with a string key: only a dict can be subscripted by a string.\<close>

fun getitem :: "json \<Rightarrow> pystr \<Rightarrow> exn + json" where
  "getitem (JDict kvs) key =
     (case map_of kvs key of None \<Rightarrow> Inl (KeyError key) | Some v \<Rightarrow> Inr v)"
| "getitem v key = Inl TypeError"

text \<open>
  Iterating a value (\<open>enumerate(v, start=1)\<close>): a list gives its elements, a dict its
  keys, a string its characters; anything else is not iterable.
\<close>

fun iter :: "json \<Rightarrow> exn + json list" where
  "iter (JList xs) = Inr xs"
| "iter (JDict kvs) = Inr (map (\<lambda>kv. JStr (fst kv)) kvs)"
| "iter (JStr s) = Inr (map (\<lambda>c. JStr [c]) s)"
| "iter v = Inl TypeError"

text \<open>The second argument of \<open>str.replace\<close> must be a \<open>str\<close>.\<close>

fun as_str :: "json \<Rightarrow> exn + pystr" where
  "as_str (JStr s) = Inr s"
| "as_str v = Inl TypeError"

text \<open>\<open>n == v\<close> for an int \<open>n\<close>: numeric against int, bool and float, False otherwise.\<close>

fun float_eq_int :: "int \<Rightarrow> pyfloat \<Rightarrow> bool" where
  "float_eq_int n (Finite m e) =
     (if 0 \<le> e then n = m * 2 ^ nat e else n * 2 ^ nat (- e) = m)"
| "float_eq_int n f = False"

fun int_eq :: "int \<Rightarrow> json \<Rightarrow> bool" where
  "int_eq n (JInt k) = (n = k)"
| "int_eq n (JBool b) = (n = (if b then 1 else 0))"
| "int_eq n (JFloat f) = float_eq_int n f"
| "int_eq n v = False"

text \<open>
  \<open>str.strip()\<close> removes leading and trailing whitespace; \<open>isspace\<close> lists the code
  points Python treats as whitespace.
\<close>

definition isspace :: "nat \<Rightarrow> bool" where
  "isspace c \<longleftrightarrow>
     (9 \<le> c \<and> c \<le> 13) \<or> (28 \<le> c \<and> c \<le> 32) \<or> c = 133 \<or> c = 160 \<or> c = 5760
     \<or> (8192 \<le> c \<and> c \<le> 8202) \<or> c = 8232 \<or> c = 8233 \<or> c = 8239 \<or> c = 8287
     \<or> c = 12288"

definition strip :: "pystr \<Rightarrow> pystr" where
  "strip s = rev (dropWhile isspace (rev (dropWhile isspace s)))"

section \<open>markRight\<close>

definition option_placeholder :: "nat \<Rightarrow> nat \<Rightarrow> pystr" where
  "option_placeholder qnum i = lit ''{{Option_'' @ digits qnum @ digits i @ lit ''}}''"

definition correct_value :: "nat \<Rightarrow> json \<Rightarrow> pystr" where
  "correct_value i optionNo = (if int_eq (int i - 1) optionNo then lit ''true'' else lit ''false'')"

text \<open>The loop \<open>for i in range(1, 5)\<close> over the values of \<open>i\<close> still to come.\<close>

fun markRight_loop :: "nat list \<Rightarrow> pystr \<Rightarrow> nat \<Rightarrow> json \<Rightarrow> pystr" where
  "markRight_loop [] quiz_content qnum optionNo = quiz_content"
| "markRight_loop (i # rest) quiz_content qnum optionNo =
     markRight_loop rest
       (replace quiz_content (option_placeholder qnum i) (correct_value i optionNo))
       qnum optionNo"

definition markRight :: "pystr \<Rightarrow> nat \<Rightarrow> json \<Rightarrow> pystr" where
  "markRight quiz_content qnum optionNo = markRight_loop [1..<5] quiz_content qnum optionNo"

section \<open>generate_xmls\<close>

subsection \<open>Filling one quiz\<close>

definition question_placeholder :: "nat \<Rightarrow> pystr" where
  "question_placeholder qnum = lit ''{{QUESTION_'' @ digits qnum @ lit ''}}''"

definition answer_placeholder :: "nat \<Rightarrow> pystr \<Rightarrow> pystr" where
  "answer_placeholder qnum letter = lit ''{{ANSWER_'' @ digits qnum @ letter @ lit ''}}''"

text \<open>The loop over \<open>enumerate(q["ANSWERS"], start=1)\<close>, at position \<open>anum\<close>.\<close>

fun fill_answers :: "pystr \<Rightarrow> nat \<Rightarrow> nat \<Rightarrow> json list \<Rightarrow> exn + pystr" where
  "fill_answers quiz_content qnum anum [] = Inr quiz_content"
| "fill_answers quiz_content qnum anum (answer_text # rest) =
     (case chr_py (64 + anum) of
        Inl e \<Rightarrow> Inl e
      | Inr letter \<Rightarrow>
          (case as_str answer_text of
             Inl e \<Rightarrow> Inl e
           | Inr text \<Rightarrow>
               fill_answers (replace quiz_content (answer_placeholder qnum letter) text)
                 qnum (Suc anum) rest))"

text \<open>The body of the loop over the questions, for question \<open>q\<close> at position \<open>qnum\<close>.\<close>

definition fill_question :: "pystr \<Rightarrow> nat \<Rightarrow> json \<Rightarrow> exn + pystr" where
  "fill_question quiz_content qnum q =
     (case getitem q (lit ''QUESTION'') of
        Inl e \<Rightarrow> Inl e
      | Inr qv \<Rightarrow>
     (case as_str qv of
        Inl e \<Rightarrow> Inl e
      | Inr qtext \<Rightarrow>
     (case getitem q (lit ''ANSWERS'') of
        Inl e \<Rightarrow> Inl e
      | Inr av \<Rightarrow>
     (case iter av of
        Inl e \<Rightarrow> Inl e
      | Inr answers \<Rightarrow>
     (case fill_answers (replace quiz_content (question_placeholder qnum) qtext) qnum 1 answers of
        Inl e \<Rightarrow> Inl e
      | Inr c \<Rightarrow>
     (case getitem q (lit ''CORRECT'') of
        Inl e \<Rightarrow> Inl e
      | Inr k \<Rightarrow> Inr (markRight c qnum k)))))))"

fun fill_questions :: "pystr \<Rightarrow> nat \<Rightarrow> json list \<Rightarrow> exn + pystr" where
  "fill_questions quiz_content qnum [] = Inr quiz_content"
| "fill_questions quiz_content qnum (q # rest) =
     (case fill_question quiz_content qnum q of
        Inl e \<Rightarrow> Inl e
      | Inr c \<Rightarrow> fill_questions c (Suc qnum) rest)"

text \<open>Lines 66 to 84: the quiz template filled from one quiz.\<close>

definition fill_template :: "pystr \<Rightarrow> json \<Rightarrow> exn + pystr" where
  "fill_template xml_template quiz =
     (case getitem quiz (lit ''TITLE'') of
        Inl e \<Rightarrow> Inl e
      | Inr tv \<Rightarrow>
     (case as_str tv of
        Inl e \<Rightarrow> Inl e
      | Inr title \<Rightarrow>
     (case getitem quiz (lit ''QUESTIONS'') of
        Inl e \<Rightarrow> Inl e
      | Inr qv \<Rightarrow>
     (case iter qv of
        Inl e \<Rightarrow> Inl e
      | Inr questions \<Rightarrow>
          fill_questions (replace xml_template (lit ''{{TITLE}}'') title) 1 questions))))"

text \<open>Lines 66 to 90: \<open>full_xml\<close>, the filled template followed by the filled meta block.\<close>

definition full_xml :: "(json \<Rightarrow> pystr) \<Rightarrow> pystr \<Rightarrow> pystr \<Rightarrow> json \<Rightarrow> exn + pystr" where
  "full_xml repr xml_template meta_block_template quiz =
     (case fill_template xml_template quiz of
        Inl e \<Rightarrow> Inl e
      | Inr quiz_content \<Rightarrow>
     (case getitem quiz (lit ''id'') of
        Inl e \<Rightarrow> Inl e
      | Inr idv \<Rightarrow>
          Inr (quiz_content @ replace meta_block_template (lit ''{{ID}}'') (py_str repr idv))))"

subsection \<open>The archive\<close>

text \<open>
  An archive is the list of its entries in the order \<open>writestr\<close> added them.  An entry
  has the name \<open>zipfile\<close> stores for it, its text, and the time stamp \<open>zipfile\<close> reads
  from the clock when it adds the entry.  A time stamp stands for a date the zip format
  holds, from 1980 to 2107; a clock outside these years is not modelled.
\<close>

record zip_entry =
  filename :: pystr
  data :: pystr
  date_time :: nat

text \<open>\<open>s.encode("utf-8")\<close> fails on a surrogate code point.\<close>

definition encodable :: "pystr \<Rightarrow> bool" where
  "encodable s = list_all (\<lambda>c. c < 55296 \<or> 57343 < c) s"

text \<open>The number of bytes of the UTF-8 encoding of a code point, and of a string.\<close>

definition utf8_length :: "nat \<Rightarrow> nat" where
  "utf8_length c = (if c < 128 then 1 else if c < 2048 then 2 else if c < 65536 then 3 else 4)"

definition encoded_length :: "pystr \<Rightarrow> nat" where
  "encoded_length s = sum_list (map utf8_length s)"

text \<open>
  \<open>ZipInfo(filename=arcname)\<close> cuts the name at its first NUL character (the path
  separator of the host is \<open>/\<close>, so nothing else is rewritten).
\<close>

definition sanitize :: "pystr \<Rightarrow> pystr" where
  "sanitize arcname = takeWhile (\<lambda>c. c \<noteq> 0) arcname"

text \<open>
  The names \<open>zipfile\<close> can write: not empty, without surrogates, at most 65535 bytes
  once encoded (the length is a 16-bit field of the file header).
\<close>

definition writable_name :: "pystr \<Rightarrow> bool" where
  "writable_name name \<longleftrightarrow> name \<noteq> [] \<and> encodable name \<and> encoded_length name \<le> 65535"

text \<open>
  \<open>zipf.writestr(arcname, text)\<close> at clock reading \<open>now\<close>, in the order \<open>zipfile\<close>
  works: the text is encoded as UTF-8 (UnicodeEncodeError); the name is cut at the
  first NUL; \<open>filename[-1]\<close> is read (IndexError on an empty name); the file header
  is built, which encodes the name (UnicodeEncodeError) and packs its length
  (\<open>struct.error\<close> beyond 65535 bytes).  A name already in the archive only warns.
\<close>

definition writestr :: "nat \<Rightarrow> pystr \<Rightarrow> pystr \<Rightarrow> exn + zip_entry" where
  "writestr now arcname text =
     (if \<not> encodable text then Inl UnicodeEncodeError
      else
        let name = sanitize arcname in
        if name = [] then Inl IndexError
        else if \<not> encodable name then Inl UnicodeEncodeError
        else if 65535 < encoded_length name then Inl StructError
        else Inr \<lparr>filename = name, data = text, date_time = now\<rparr>)"

text \<open>\<open>filename = f"{base_name}_{idx}.xml"\<close>\<close>

definition entry_name :: "pystr \<Rightarrow> nat \<Rightarrow> pystr" where
  "entry_name base_name idx = base_name @ lit ''_'' @ digits idx @ lit ''.xml''"

text \<open>The loop over \<open>enumerate(data.get("quizzes", []), start=1)\<close>, at position \<open>idx\<close>.\<close>

fun write_all ::
  "(json \<Rightarrow> pystr) \<Rightarrow> (nat \<Rightarrow> nat) \<Rightarrow> pystr \<Rightarrow> pystr \<Rightarrow> pystr \<Rightarrow> nat \<Rightarrow> json list
     \<Rightarrow> exn + zip_entry list" where
  "write_all repr clock base_name xml_template meta_block_template idx [] = Inr []"
| "write_all repr clock base_name xml_template meta_block_template idx (quiz # rest) =
     (case full_xml repr xml_template meta_block_template quiz of
        Inl e \<Rightarrow> Inl e
      | Inr doc \<Rightarrow>
     (case writestr (clock idx) (entry_name base_name idx) doc of
        Inl e \<Rightarrow> Inl e
      | Inr entry \<Rightarrow>
     (case write_all repr clock base_name xml_template meta_block_template (Suc idx) rest of
        Inl e \<Rightarrow> Inl e
      | Inr entries \<Rightarrow> Inr (entry # entries))))"

subsection \<open>The request handler\<close>

text \<open>
  What the handler sees of a request: whether \<open>request.files\<close> has a part named
  \<open>quiz_json\<close> and, if so, what \<open>json.load\<close> makes of it (the parsed value, or the
  text of the exception it raises); and the form value \<open>base_name\<close>, if sent.
\<close>

record request =
  quiz_json :: "(pystr + json) option"
  base_name :: "pystr option"

text \<open>
  What the handler sees of its surroundings: the result of reading each template file
  and the clock.
\<close>

record env =
  xml_template_file :: "exn + pystr"
  meta_block_file :: "exn + pystr"
  clock :: "nat \<Rightarrow> nat"

text \<open>
  How the handler ends: \<open>abort(code, message)\<close>, an exception nobody catches, or
  the response \<open>send_file\<close> makes of the archive and its download name.
\<close>

datatype outcome =
    Abort nat pystr
  | Raised exn
  | SendFile "zip_entry list" pystr

text \<open>Step 3: both template files are read; only FileNotFoundError is caught.\<close>

definition load_templates :: "env \<Rightarrow> outcome + (pystr \<times> pystr)" where
  "load_templates ev =
     (case xml_template_file ev of
        Inl (FileNotFoundError m) \<Rightarrow> Inl (Abort 500 (lit ''Template files not found: '' @ m))
      | Inl e \<Rightarrow> Inl (Raised e)
      | Inr xml_template \<Rightarrow>
     (case meta_block_file ev of
        Inl (FileNotFoundError m) \<Rightarrow> Inl (Abort 500 (lit ''Template files not found: '' @ m))
      | Inl e \<Rightarrow> Inl (Raised e)
      | Inr meta_block_template \<Rightarrow> Inr (xml_template, meta_block_template)))"

text \<open>
  \<open>send_file(zip_buffer, mimetype="application/zip", as_attachment=True,
  download_name=...)\<close> puts the download name into the Content-Disposition header.  A
  name that is not ASCII is also percent-encoded from its UTF-8 form
  (UnicodeEncodeError on a surrogate), and a header value holding a carriage return or
  a line feed is refused with ValueError.  Otherwise the response carries the archive;
  the handler ends there, and what a server does with the response is not modelled.
\<close>

definition header_safe :: "pystr \<Rightarrow> bool" where
  "header_safe v \<longleftrightarrow> \<not> list_ex (\<lambda>c. c = 10 \<or> c = 13) v"

definition send_file :: "zip_entry list \<Rightarrow> pystr \<Rightarrow> outcome" where
  "send_file entries download_name =
     (if \<not> encodable download_name then Raised UnicodeEncodeError
      else if \<not> header_safe download_name then Raised ValueError
      else SendFile entries download_name)"

text \<open>Steps 4 and 5: \<open>data.get("quizzes", [])\<close>, the loop, \<open>send_file\<close>.\<close>

definition get_quizzes :: "json \<Rightarrow> exn + json" where
  "get_quizzes d =
     (case d of
        JDict kvs \<Rightarrow> (case map_of kvs (lit ''quizzes'') of None \<Rightarrow> Inr (JList []) | Some v \<Rightarrow> Inr v)
      | _ \<Rightarrow> Inl AttributeError)"

definition package ::
  "(json \<Rightarrow> pystr) \<Rightarrow> (nat \<Rightarrow> nat) \<Rightarrow> pystr \<Rightarrow> pystr \<Rightarrow> pystr \<Rightarrow> json \<Rightarrow> outcome" where
  "package repr clk bn xml_template meta_block_template d =
     (case get_quizzes d of
        Inl e \<Rightarrow> Raised e
      | Inr qv \<Rightarrow>
     (case iter qv of
        Inl e \<Rightarrow> Raised e
      | Inr quizzes \<Rightarrow>
     (case write_all repr clk bn xml_template meta_block_template 1 quizzes of
        Inl e \<Rightarrow> Raised e
      | Inr entries \<Rightarrow> send_file entries (bn @ lit ''_xmls.zip''))))"

text \<open>\<open>request.form.get("base_name", "")\<close>\<close>

definition form_base_name :: "request \<Rightarrow> pystr" where
  "form_base_name req = (case base_name req of None \<Rightarrow> [] | Some v \<Rightarrow> v)"

definition generate_xmls :: "(json \<Rightarrow> pystr) \<Rightarrow> env \<Rightarrow> request \<Rightarrow> outcome" where
  "generate_xmls repr ev req =
     (case quiz_json req of
        None \<Rightarrow> Abort 400 (lit ''No JSON file part'')
      | Some quiz_file \<Rightarrow>
          let bn = strip (form_base_name req) in
          if bn = [] then Abort 400 (lit ''Base filename is required'')
          else
            (case quiz_file of
               Inl e \<Rightarrow> Abort 400 (lit ''Invalid JSON: '' @ e)
             | Inr d \<Rightarrow>
                 (case load_templates ev of
                    Inl out \<Rightarrow> out
                  | Inr (xml_template, meta_block_template) \<Rightarrow>
                      package repr (clock ev) bn xml_template meta_block_template d)))"

text \<open>
  The status of the HTTP response: \<open>abort\<close> sends its code, Flask answers an uncaught
  exception with 500, \<open>send_file\<close> answers 200.
\<close>

fun http_status :: "outcome \<Rightarrow> nat" where
  "http_status (Abort code msg) = code"
| "http_status (Raised e) = 500"
| "http_status (SendFile entries download_name) = 200"

fun archive_of :: "outcome \<Rightarrow> zip_entry list option" where
  "archive_of (SendFile entries download_name) = Some entries"
| "archive_of out = None"

text \<open>What the archive holds apart from time stamps: the name and text of each entry.\<close>

definition contents :: "outcome \<Rightarrow> (pystr \<times> pystr) list option" where
  "contents out = map_option (map (\<lambda>z. (filename z, data z))) (archive_of out)"

section \<open>Notions of the specification\<close>

text \<open>
  A quiz record or question "missing a required key": a JSON object without that
  key.  A quiz lacks a key if it has no \<open>TITLE\<close> or \<open>id\<close>, or if its \<open>QUESTIONS\<close>
  list holds a question without \<open>QUESTION\<close>, \<open>ANSWERS\<close> or \<open>CORRECT\<close>.
\<close>

definition lacks_key :: "json \<Rightarrow> pystr \<Rightarrow> bool" where
  "lacks_key v key = (case v of JDict kvs \<Rightarrow> map_of kvs key = None | _ \<Rightarrow> False)"

definition question_lacks_key :: "json \<Rightarrow> bool" where
  "question_lacks_key q \<longleftrightarrow>
     lacks_key q (lit ''QUESTION'') \<or> lacks_key q (lit ''ANSWERS'') \<or> lacks_key q (lit ''CORRECT'')"

definition quiz_lacks_key :: "json \<Rightarrow> bool" where
  "quiz_lacks_key quiz \<longleftrightarrow>
     lacks_key quiz (lit ''TITLE'') \<or> lacks_key quiz (lit ''id'') \<or>
     (case getitem quiz (lit ''QUESTIONS'') of
        Inr (JList qs) \<Rightarrow> list_ex question_lacks_key qs
      | _ \<Rightarrow> False)"

subsection \<open>Templates as text and placeholders\<close>

text \<open>
  A template seen as the specification describes it: pieces of text and placeholders
  \<open>{{NAME}}\<close>.  It is well formed when no text piece holds an opening brace and no
  name holds a brace.  A substitution is a list of names with their values; \<open>subst\<close>
  applies it to a template in a single pass (the first pair for a name counts), while
  \<open>replace_all\<close> performs the replacements one after another on the rendered string.
  \<open>quiz_substs\<close> lists the substitutions of sections 4.1.1 to 4.1.4 of the specification
  for one quiz, in their order: the title, then for each question its text, its answers
  (letter \<open>'A' + anum - 1\<close>) and the four option marks.  \<open>field\<close>, \<open>items\<close> and
  \<open>the_str\<close> read a quiz as the data model of the specification describes it; on a quiz of
  that shape they return what \<open>getitem\<close>, \<open>iter\<close> and \<open>as_str\<close> return.
  \<open>overlaps a b\<close>: an end of \<open>a\<close> is a beginning of \<open>b\<close>.
\<close>

datatype tok = Txt pystr | Hole pystr

definition placeholder :: "pystr \<Rightarrow> pystr" where
  "placeholder name = lit ''{{'' @ name @ lit ''}}''"

fun render_tok :: "tok \<Rightarrow> pystr" where
  "render_tok (Txt t) = t"
| "render_tok (Hole name) = placeholder name"

definition render :: "tok list \<Rightarrow> pystr" where
  "render ts = concat (map render_tok ts)"

fun wf_tok :: "tok \<Rightarrow> bool" where
  "wf_tok (Txt t) = (123 \<notin> set t)"
| "wf_tok (Hole name) = (123 \<notin> set name \<and> 125 \<notin> set name)"

definition well_formed :: "tok list \<Rightarrow> bool" where
  "well_formed ts = list_all wf_tok ts"

fun subst1 :: "pystr \<Rightarrow> pystr \<Rightarrow> tok \<Rightarrow> tok" where
  "subst1 name v (Txt t) = Txt t"
| "subst1 name v (Hole m) = (if m = name then Txt v else Hole m)"

fun subst :: "(pystr \<times> pystr) list \<Rightarrow> tok \<Rightarrow> tok" where
  "subst \<sigma> (Txt t) = Txt t"
| "subst \<sigma> (Hole m) = (case map_of \<sigma> m of None \<Rightarrow> Hole m | Some v \<Rightarrow> Txt v)"

fun replace_all :: "pystr \<Rightarrow> (pystr \<times> pystr) list \<Rightarrow> pystr" where
  "replace_all c [] = c"
| "replace_all c ((name, v) # \<sigma>) = replace_all (replace c (placeholder name) v) \<sigma>"

fun the_str :: "json \<Rightarrow> pystr" where
  "the_str (JStr s) = s"
| "the_str v = []"

definition field :: "json \<Rightarrow> pystr \<Rightarrow> json" where
  "field v key = (case getitem v key of Inr x \<Rightarrow> x | Inl e \<Rightarrow> JNone)"

definition items :: "json \<Rightarrow> json list" where
  "items v = (case iter v of Inr xs \<Rightarrow> xs | Inl e \<Rightarrow> [])"

definition answer_name :: "nat \<Rightarrow> nat \<Rightarrow> pystr" where
  "answer_name qnum anum = lit ''ANSWER_'' @ digits qnum @ [65 + (anum - 1)]"

definition option_name :: "nat \<Rightarrow> nat \<Rightarrow> pystr" where
  "option_name qnum i = lit ''Option_'' @ digits qnum @ digits i"

definition question_name :: "nat \<Rightarrow> pystr" where
  "question_name qnum = lit ''QUESTION_'' @ digits qnum"

fun answer_substs :: "nat \<Rightarrow> nat \<Rightarrow> json list \<Rightarrow> (pystr \<times> pystr) list" where
  "answer_substs qnum anum [] = []"
| "answer_substs qnum anum (a # rest) =
     (answer_name qnum anum, the_str a) # answer_substs qnum (Suc anum) rest"

definition option_substs :: "nat \<Rightarrow> json \<Rightarrow> (pystr \<times> pystr) list" where
  "option_substs qnum correct =
     map (\<lambda>i. (option_name qnum i,
                if int_eq (int i - 1) correct then lit ''true'' else lit ''false'')) [1, 2, 3, 4]"

definition question_substs :: "nat \<Rightarrow> json \<Rightarrow> (pystr \<times> pystr) list" where
  "question_substs qnum q =
     (question_name qnum, the_str (field q (lit ''QUESTION'')))
     # answer_substs qnum 1 (items (field q (lit ''ANSWERS'')))
     @ option_substs qnum (field q (lit ''CORRECT''))"

fun questions_substs :: "nat \<Rightarrow> json list \<Rightarrow> (pystr \<times> pystr) list" where
  "questions_substs qnum [] = []"
| "questions_substs qnum (q # rest) = question_substs qnum q @ questions_substs (Suc qnum) rest"

definition quiz_substs :: "json \<Rightarrow> (pystr \<times> pystr) list" where
  "quiz_substs quiz =
     (lit ''TITLE'', the_str (field quiz (lit ''TITLE'')))
     # questions_substs 1 (items (field quiz (lit ''QUESTIONS'')))"

definition overlaps :: "'a list \<Rightarrow> 'a list \<Rightarrow> bool" where
  "overlaps a b = list_ex (\<lambda>t. t \<noteq> [] \<and> prefix t b) (suffixes a)"

definition at_most_58_answers :: "json \<Rightarrow> bool" where
  "at_most_58_answers quiz =
     list_all (\<lambda>q. length (items (field q (lit ''ANSWERS''))) \<le> 58)
       (items (field quiz (lit ''QUESTIONS'')))"

text \<open>
  \<open>plain_values\<close>: no substituted text of the quiz holds an opening brace.
  \<open>foreign_to new P\<close>: the text \<open>new\<close> cannot be part of an occurrence of \<open>P\<close>, since it
  holds neither the first nor the last character of \<open>P\<close> and has a character \<open>P\<close> lacks.
\<close>

definition foreign_to :: "'a list \<Rightarrow> 'a list \<Rightarrow> bool" where
  "foreign_to new P \<longleftrightarrow>
     P \<noteq> [] \<and> hd P \<notin> set new \<and> last P \<notin> set new \<and> list_ex (\<lambda>c. c \<notin> set P) new"

definition plain_values :: "json \<Rightarrow> bool" where
  "plain_values quiz = list_all (\<lambda>(n, v). 123 \<notin> set v) (quiz_substs quiz)"

section \<open>Example data\<close>

text \<open>The scenario of the specification: one quiz with one question, base name \<open>math\<close>.\<close>

definition example_question :: json where
  "example_question = JDict
     [(lit ''QUESTION'', JStr (lit ''2+2?'')),
      (lit ''ANSWERS'', JList [JStr (lit ''3''), JStr (lit ''4''), JStr (lit ''5''), JStr (lit ''6'')]),
      (lit ''CORRECT'', JInt 1)]"

definition example_quiz :: json where
  "example_quiz = JDict
     [(lit ''id'', JInt 1), (lit ''TITLE'', JStr (lit ''Quiz A'')),
      (lit ''QUESTIONS'', JList [example_question])]"

definition example_data :: json where
  "example_data = JDict [(lit ''quizzes'', JList [example_quiz])]"

definition example_template :: pystr where
  "example_template = lit ''{{TITLE}}:{{QUESTION_1}} {{ANSWER_1A}}{{ANSWER_1B}}{{ANSWER_1C}}{{ANSWER_1D}} {{Option_11}},{{Option_12}},{{Option_13}},{{Option_14}}''"

definition example_meta :: pystr where
  "example_meta = lit ''<id>{{ID}}</id>''"

definition example_env :: env where
  "example_env = \<lparr>xml_template_file = Inr example_template,
                   meta_block_file = Inr example_meta, clock = (\<lambda>n. 0)\<rparr>"

definition example_request :: request where
  "example_request = \<lparr>quiz_json = Some (Inr example_data), base_name = Some (lit '' math '')\<rparr>"

definition example_repr :: "json \<Rightarrow> pystr" where
  "example_repr v = []"

text \<open>Smaller surroundings and requests, one for each way a request can go wrong.\<close>

definition small_env :: env where
  "small_env = \<lparr>xml_template_file = Inr (lit ''{{TITLE}}''),
                 meta_block_file = Inr (lit ''{{ID}}''), clock = (\<lambda>n. n)\<rparr>"

definition later_env :: env where
  "later_env = \<lparr>xml_template_file = Inr (lit ''{{TITLE}}''),
                 meta_block_file = Inr (lit ''{{ID}}''), clock = (\<lambda>n. n + 60)\<rparr>"

definition no_xml_env :: env where
  "no_xml_env = \<lparr>xml_template_file = Inl (FileNotFoundError (lit ''xml_template.xml'')),
                  meta_block_file = Inr (lit ''{{ID}}''), clock = (\<lambda>n. n)\<rparr>"

definition no_meta_env :: env where
  "no_meta_env = \<lparr>xml_template_file = Inr (lit ''{{TITLE}}''),
                   meta_block_file = Inl (FileNotFoundError (lit ''meta_block.xml'')),
                   clock = (\<lambda>n. n)\<rparr>"

definition small_quiz :: json where
  "small_quiz = JDict [(lit ''id'', JInt 7), (lit ''TITLE'', JStr (lit ''T'')),
                       (lit ''QUESTIONS'', JList [])]"

definition small_request :: request where
  "small_request = \<lparr>quiz_json = Some (Inr (JDict [(lit ''quizzes'', JList [small_quiz])])),
                     base_name = Some (lit ''q'')\<rparr>"

definition no_file_request :: request where
  "no_file_request = \<lparr>quiz_json = None, base_name = Some (lit ''q'')\<rparr>"

definition bad_json_request :: request where
  "bad_json_request = \<lparr>quiz_json = Some (Inl (lit ''Expecting value'')),
                        base_name = Some (lit ''q'')\<rparr>"

definition no_title_quiz :: json where
  "no_title_quiz = JDict [(lit ''id'', JInt 7), (lit ''QUESTIONS'', JList [])]"

definition no_title_request :: request where
  "no_title_request = \<lparr>quiz_json = Some (Inr (JDict [(lit ''quizzes'', JList [no_title_quiz])])),
                        base_name = Some (lit ''q'')\<rparr>"

definition no_quizzes_request :: request where
  "no_quizzes_request = \<lparr>quiz_json = Some (Inr (JDict [(lit ''version'', JInt 2)])),
                          base_name = Some (lit ''q'')\<rparr>"

text \<open>
  Requests that pass the checks: a base name holding a line feed, a JSON document whose top
  level is a list, and a base name holding a NUL character.
\<close>

definition newline_request :: request where
  "newline_request = \<lparr>quiz_json = Some (Inr (JDict [(lit ''version'', JInt 2)])),
                       base_name = Some (lit ''a'' @ [10] @ lit ''b'')\<rparr>"

definition list_request :: request where
  "list_request = \<lparr>quiz_json = Some (Inr (JList [])), base_name = Some (lit ''q'')\<rparr>"

definition nul_request :: request where
  "nul_request = \<lparr>quiz_json = Some (Inr (JDict [(lit ''quizzes'', JList [small_quiz])])),
                   base_name = Some (lit ''a'' @ [0] @ lit ''b'')\<rparr>"

text \<open>Templates as token lists, and quizzes whose texts hold placeholders.\<close>

definition example_tokens :: "tok list" where
  "example_tokens =
     [Hole (lit ''TITLE''), Txt (lit '':''), Hole (lit ''QUESTION_1''), Txt (lit '' ''),
      Hole (lit ''ANSWER_1A''), Hole (lit ''ANSWER_1B''), Hole (lit ''ANSWER_1C''),
      Hole (lit ''ANSWER_1D''), Txt (lit '' ''),
      Hole (lit ''Option_11''), Txt (lit '',''), Hole (lit ''Option_12''), Txt (lit '',''),
      Hole (lit ''Option_13''), Txt (lit '',''), Hole (lit ''Option_14'')]"

definition option_tokens :: "tok list" where
  "option_tokens =
     [Hole (lit ''Option_11''), Txt (lit '',''), Hole (lit ''Option_12''), Txt (lit '',''),
      Hole (lit ''Option_13''), Txt (lit '',''), Hole (lit ''Option_14'')]"

definition nested_quiz :: json where
  "nested_quiz = JDict
     [(lit ''id'', JInt 1), (lit ''TITLE'', JStr (lit ''{{QUESTION_1}}'')),
      (lit ''QUESTIONS'', JList [JDict [(lit ''QUESTION'', JStr (lit ''X'')),
                                        (lit ''ANSWERS'', JList []), (lit ''CORRECT'', JInt 0)]])]"

definition echo_quiz :: json where
  "echo_quiz = JDict
     [(lit ''id'', JInt 1), (lit ''TITLE'', JStr (lit ''Quiz'')),
      (lit ''QUESTIONS'', JList [JDict [(lit ''QUESTION'', JStr (lit ''{{TITLE}}?'')),
                                        (lit ''ANSWERS'', JList []), (lit ''CORRECT'', JInt 0)]])]"

definition three_answers :: "json list" where
  "three_answers = [JStr (lit ''3''), JStr (lit ''4''), JStr (lit ''5'')]"

definition three_answer_quiz :: json where
  "three_answer_quiz = JDict
     [(lit ''id'', JInt 1), (lit ''TITLE'', JStr (lit ''Quiz'')),
      (lit ''QUESTIONS'', JList [JDict [(lit ''QUESTION'', JStr (lit ''2+2?'')),
                                        (lit ''ANSWERS'', JList three_answers),
                                        (lit ''CORRECT'', JInt 1)]])]"

definition title_tokens :: "tok list" where
  "title_tokens = [Hole (lit ''TITLE''), Txt (lit ''/''), Hole (lit ''TITLE'')]"

section \<open>Evaluation rules\<close>

lemma replace_Nil: "replace [] (a # old) new = []"
  by (simp add: replace.simps)

lemma replace_Cons:
  "replace (c # cs) (a # old) new =
     (if prefix (a # old) (c # cs) then new @ replace (drop (length (a # old)) (c # cs)) (a # old) new
      else c # replace cs (a # old) new)"
  by (subst replace.simps) simp

lemma range_1_5: "[1..<5] = [1, 2, 3, 4]"
  by (simp add: upt_rec)

lemma markRight_unfold:
  "markRight c qnum k =
     replace (replace (replace (replace c
       (option_placeholder qnum 1) (correct_value 1 k))
       (option_placeholder qnum 2) (correct_value 2 k))
       (option_placeholder qnum 3) (correct_value 3 k))
       (option_placeholder qnum 4) (correct_value 4 k)"
  unfolding markRight_def range_1_5 by simp

lemma digits_small: "n < 10 \<Longrightarrow> digits n = [48 + n]"
  by (simp add: digits.simps)

lemmas eval_defs = lit_def generate_xmls_def package_def load_templates_def get_quizzes_def
  form_base_name_def strip_def isspace_def full_xml_def fill_template_def fill_question_def
  markRight_unfold option_placeholder_def correct_value_def question_placeholder_def
  answer_placeholder_def chr_py_def entry_name_def encodable_def str_int_def
  writestr_def sanitize_def utf8_length_def encoded_length_def send_file_def header_safe_def
  replace_Nil replace_Cons digits_small

section \<open>The archive loop\<close>

lemma writestr_Inr_iff:
  "writestr now arcname txt = Inr z \<longleftrightarrow>
     encodable txt \<and> writable_name (sanitize arcname) \<and>
     z = \<lparr>filename = sanitize arcname, data = txt, date_time = now\<rparr>"
  by (auto simp: writestr_def writable_name_def Let_def)

lemma writestr_clock:
  "map_sum id (\<lambda>z. (filename z, data z)) (writestr now arcname txt) =
   map_sum id (\<lambda>z. (filename z, data z)) (writestr now' arcname txt)"
  by (simp add: writestr_def Let_def)

lemma write_all_Inr_iff:
  "write_all repr clk bn t mb idx quizzes = Inr entries \<longleftrightarrow>
   length entries = length quizzes \<and>
   (\<forall>i < length quizzes.
      filename (entries ! i) = sanitize (entry_name bn (idx + i)) \<and>
      writable_name (filename (entries ! i)) \<and>
      date_time (entries ! i) = clk (idx + i) \<and>
      full_xml repr t mb (quizzes ! i) = Inr (data (entries ! i)) \<and>
      encodable (data (entries ! i)))"
proof (induction quizzes arbitrary: idx entries)
  case Nil
  then show ?case by auto
next
  case (Cons quiz rest)
  let ?P = "\<lambda>idx quizzes entries i.
      filename (entries ! i) = sanitize (entry_name bn (idx + i)) \<and>
      writable_name (filename (entries ! i)) \<and>
      date_time (entries ! i) = clk (idx + i) \<and>
      full_xml repr t mb (quizzes ! i) = Inr (data (entries ! i)) \<and>
      encodable (data (entries ! i))"
  show ?case
  proof
    assume w: "write_all repr clk bn t mb idx (quiz # rest) = Inr entries"
    then obtain doc z es where
      doc: "full_xml repr t mb quiz = Inr doc" and
      z: "writestr (clk idx) (entry_name bn idx) doc = Inr z" and
      rest: "write_all repr clk bn t mb (Suc idx) rest = Inr es" and
      ent: "entries = z # es"
      by (auto split: sum.splits)
    from z have zz: "encodable doc" "writable_name (sanitize (entry_name bn idx))"
      "z = \<lparr>filename = sanitize (entry_name bn idx), data = doc, date_time = clk idx\<rparr>"
      by (simp_all add: writestr_Inr_iff)
    from rest have len: "length es = length rest" and
      ih: "\<And>i. i < length rest \<Longrightarrow> ?P (Suc idx) rest es i"
      using Cons.IH [of "Suc idx" es] by auto
    have q: "?P idx (quiz # rest) entries i" if "i < length (quiz # rest)" for i
    proof (cases i)
      case 0
      then show ?thesis using ent zz doc by simp
    next
      case (Suc j)
      then have "j < length rest" using that by simp
      from ih [OF this] show ?thesis using ent Suc by auto
    qed
    have l: "length entries = length (quiz # rest)" using ent len by simp
    from q l show "length entries = length (quiz # rest) \<and>
        (\<forall>i < length (quiz # rest). ?P idx (quiz # rest) entries i)"
      by blast
  next
    assume r: "length entries = length (quiz # rest) \<and>
        (\<forall>i < length (quiz # rest). ?P idx (quiz # rest) entries i)"
    then obtain z es where ent: "entries = z # es" and len: "length es = length rest"
      by (cases entries) auto
    from r have p: "\<And>i. i < length (quiz # rest) \<Longrightarrow> ?P idx (quiz # rest) entries i"
      by blast
    from p [of 0] ent have z0:
      "filename z = sanitize (entry_name bn idx)" "writable_name (filename z)"
      "date_time z = clk idx" "full_xml repr t mb quiz = Inr (data z)" "encodable (data z)"
      by auto
    have "?P (Suc idx) rest es j" if "j < length rest" for j
      using p [of "Suc j"] that ent by auto
    with len have rest: "write_all repr clk bn t mb (Suc idx) rest = Inr es"
      using Cons.IH [of "Suc idx" es] by blast
    have "z = \<lparr>filename = sanitize (entry_name bn idx), data = data z, date_time = clk idx\<rparr>"
      using z0(1,3) by simp
    moreover have "writable_name (sanitize (entry_name bn idx))"
      using z0(1,2) by simp
    ultimately have "writestr (clk idx) (entry_name bn idx) (data z) = Inr z"
      using z0(5) by (simp add: writestr_Inr_iff)
    then show "write_all repr clk bn t mb idx (quiz # rest) = Inr entries"
      using z0(4) rest ent by simp
  qed
qed

lemma write_all_fails:
  "quiz \<in> set quizzes \<Longrightarrow> full_xml repr t mb quiz = Inl e \<Longrightarrow>
   \<exists>e'. write_all repr clk bn t mb idx quizzes = Inl e'"
proof (induction quizzes arbitrary: idx)
  case Nil
  then show ?case by simp
next
  case (Cons a rest)
  show ?case
  proof (cases "a = quiz")
    case True
    then show ?thesis using Cons.prems by simp
  next
    case False
    then have "quiz \<in> set rest" using Cons.prems by simp
    from Cons.IH [OF this Cons.prems(2)] obtain e' where
      "write_all repr clk bn t mb (Suc idx) rest = Inl e'" by blast
    then show ?thesis by (simp split: sum.splits)
  qed
qed

lemma write_all_clock:
  "map_sum id (map (\<lambda>z. (filename z, data z))) (write_all repr clk bn t mb idx quizzes) =
   map_sum id (map (\<lambda>z. (filename z, data z))) (write_all repr clk' bn t mb idx quizzes)"
proof (induction quizzes arbitrary: idx)
  case Nil
  then show ?case by simp
next
  case (Cons a rest)
  show ?case
  proof (cases "full_xml repr t mb a")
    case (Inl e)
    then show ?thesis by simp
  next
    case (Inr doc)
    show ?thesis
      using Cons.IH [of "Suc idx"] Inr writestr_clock [of "clk idx" "entry_name bn idx" doc "clk' idx"]
      by (cases "writestr (clk idx) (entry_name bn idx) doc";
          cases "writestr (clk' idx) (entry_name bn idx) doc";
          cases "write_all repr clk bn t mb (Suc idx) rest";
          cases "write_all repr clk' bn t mb (Suc idx) rest") simp_all
  qed
qed

text \<open>Names and headers built from a base name.\<close>

lemma digits_no_NUL: "0 \<notin> set (digits n)"
proof (induction n rule: digits.induct)
  case (1 n)
  show ?case
  proof (cases "n < 10")
    case True
    then show ?thesis by (subst digits.simps) simp
  next
    case False
    then show ?thesis using 1 by (subst digits.simps) simp
  qed
qed

lemma sanitize_id: "0 \<notin> set s \<Longrightarrow> sanitize s = s"
  by (induction s) (auto simp: sanitize_def)

lemma sanitize_entry_name:
  assumes "0 \<notin> set bn"
  shows "sanitize (bn @ lit ''_'' @ digits n @ lit ''.xml'') = bn @ lit ''_'' @ digits n @ lit ''.xml''"
proof -
  from assms digits_no_NUL [of n] have "0 \<notin> set (bn @ lit ''_'' @ digits n @ lit ''.xml'')"
    by (simp add: lit_def)
  then show ?thesis by (rule sanitize_id)
qed

lemma encodable_append: "encodable (a @ b) \<longleftrightarrow> encodable a \<and> encodable b"
  by (simp add: encodable_def)

lemma header_safe_append: "header_safe (a @ b) \<longleftrightarrow> header_safe a \<and> header_safe b"
  by (auto simp: header_safe_def list_ex_iff)

lemma download_name_ok:
  "encodable (bn @ lit ''_xmls.zip'') = encodable bn"
  "header_safe (bn @ lit ''_xmls.zip'') = header_safe bn"
  by (simp_all add: encodable_append header_safe_append)
     (simp_all add: encodable_def header_safe_def lit_def)

lemma send_file_SendFile_iff:
  "send_file entries download_name = SendFile entries' download_name' \<longleftrightarrow>
     entries' = entries \<and> download_name' = download_name
     \<and> encodable download_name \<and> header_safe download_name"
  by (auto simp: send_file_def)

section \<open>Stripping the base name\<close>

lemma strip_split: "dropWhile isspace v = strip v @ rev (takeWhile isspace (rev (dropWhile isspace v)))"
  unfolding strip_def by (metis rev_append rev_rev_ident takeWhile_dropWhile_id)

lemma strip_Nil_iff: "strip v = [] \<longleftrightarrow> (\<forall>c \<in> set v. isspace c)"
proof
  assume "strip v = []"
  then have a: "\<forall>x \<in> set (dropWhile isspace v). isspace x"
    by (simp add: strip_def dropWhile_eq_Nil_conv)
  have "dropWhile isspace v = []"
  proof (rule ccontr)
    assume ne: "dropWhile isspace v \<noteq> []"
    then have "\<not> isspace (hd (dropWhile isspace v))" by (rule hd_dropWhile)
    moreover have "hd (dropWhile isspace v) \<in> set (dropWhile isspace v)" using ne by simp
    ultimately show False using a by blast
  qed
  then show "\<forall>c \<in> set v. isspace c" by (simp add: dropWhile_eq_Nil_conv)
next
  assume "\<forall>c \<in> set v. isspace c"
  then show "strip v = []"
    by (auto simp: strip_def dropWhile_eq_Nil_conv dest: set_dropWhileD)
qed

lemma strip_decomp:
  "\<exists>l r. v = l @ strip v @ r \<and> (\<forall>c \<in> set l. isspace c) \<and> (\<forall>c \<in> set r. isspace c)"
proof -
  let ?m = "dropWhile isspace v"
  let ?r = "rev (takeWhile isspace (rev ?m))"
  have "v = takeWhile isspace v @ ?m" by simp
  then have 1: "v = takeWhile isspace v @ strip v @ ?r" using strip_split [of v] by simp
  have 3: "\<forall>c \<in> set (takeWhile isspace v). isspace c" by (auto dest: set_takeWhileD)
  have 4: "\<forall>c \<in> set ?r. isspace c"
    by (auto dest: set_takeWhileD)
  from 1 3 4 show ?thesis by blast
qed

lemma strip_ends:
  assumes "strip v \<noteq> []"
  shows "\<not> isspace (hd (strip v))" and "\<not> isspace (last (strip v))"
proof -
  let ?m = "dropWhile isspace v"
  have ne: "dropWhile isspace (rev ?m) \<noteq> []" using assms by (simp add: strip_def)
  then have "\<not> isspace (hd (dropWhile isspace (rev ?m)))" by (rule hd_dropWhile)
  then show "\<not> isspace (last (strip v))" using ne by (simp add: strip_def last_rev)
  have mne: "?m \<noteq> []" using ne by (cases "?m") simp_all
  then have h: "\<not> isspace (hd ?m)" by (rule hd_dropWhile)
  have "hd ?m = hd (strip v)" using assms by (subst strip_split) simp
  with h show "\<not> isspace (hd (strip v))" by simp
qed

section \<open>Missing keys\<close>

lemma lacks_key_getitem: "lacks_key v key \<Longrightarrow> getitem v key = Inl (KeyError key)"
  by (cases v) (simp_all add: lacks_key_def)

lemma fill_question_lacks:
  assumes "question_lacks_key q"
  shows "\<exists>e. fill_question c qnum q = Inl e"
proof -
  from assms consider "lacks_key q (lit ''QUESTION'')" | "lacks_key q (lit ''ANSWERS'')"
    | "lacks_key q (lit ''CORRECT'')"
    unfolding question_lacks_key_def by blast
  then show ?thesis
  proof cases
    case 1
    then show ?thesis by (simp add: fill_question_def lacks_key_getitem)
  next
    case 2
    then show ?thesis
      by (simp add: fill_question_def lacks_key_getitem split: sum.splits)
  next
    case 3
    then show ?thesis
      by (simp add: fill_question_def lacks_key_getitem split: sum.splits)
  qed
qed

lemma fill_questions_lacks:
  "q \<in> set qs \<Longrightarrow> question_lacks_key q \<Longrightarrow> \<exists>e. fill_questions c qnum qs = Inl e"
proof (induction qs arbitrary: c qnum)
  case Nil
  then show ?case by simp
next
  case (Cons a rest)
  show ?case
  proof (cases "fill_question c qnum a")
    case (Inl e)
    then show ?thesis by simp
  next
    case (Inr c')
    have "a \<noteq> q" using Inr fill_question_lacks [OF Cons.prems(2), of c qnum] by auto
    then have "q \<in> set rest" using Cons.prems(1) by simp
    from Cons.IH [OF this Cons.prems(2)] show ?thesis using Inr by simp
  qed
qed

lemma full_xml_lacks:
  assumes "quiz_lacks_key quiz"
  shows "\<exists>e. full_xml repr t mb quiz = Inl e"
proof -
  from assms consider (title) "lacks_key quiz (lit ''TITLE'')" | (ident) "lacks_key quiz (lit ''id'')"
    | (question) qs q where "getitem quiz (lit ''QUESTIONS'') = Inr (JList qs)" "q \<in> set qs"
        "question_lacks_key q"
    unfolding quiz_lacks_key_def
    by (auto split: sum.splits json.splits simp: list_ex_iff)
  then show ?thesis
  proof cases
    case title
    then show ?thesis by (simp add: full_xml_def fill_template_def lacks_key_getitem)
  next
    case ident
    then show ?thesis by (simp add: full_xml_def lacks_key_getitem split: sum.splits)
  next
    case question
    have "\<exists>e. fill_template t quiz = Inl e"
      using question(1) fill_questions_lacks [OF question(2,3)]
      by (auto simp: fill_template_def split: sum.splits)
    then show ?thesis by (auto simp: full_xml_def)
  qed
qed

section \<open>Replacement on templates\<close>

lemma replace_empty [simp]: "old \<noteq> [] \<Longrightarrow> replace [] old new = []"
  by (simp add: replace.simps)

lemma replace_match: "old \<noteq> [] \<Longrightarrow> replace (old @ s) old new = new @ replace s old new"
  by (subst replace.simps) simp

lemma replace_step:
  "old \<noteq> [] \<Longrightarrow> \<not> prefix old (c # s) \<Longrightarrow> replace (c # s) old new = c # replace s old new"
  by (subst replace.simps) simp

lemma replace_skip:
  assumes "old \<noteq> []" and "hd old \<notin> set a"
  shows "replace (a @ s) old new = a @ replace s old new"
  using assms(2)
proof (induction a)
  case Nil
  show ?case by simp
next
  case (Cons c a)
  from Cons.prems have "c \<noteq> hd old" by auto
  then have "\<not> prefix old ((c # a) @ s)" using assms(1) by (cases old) auto
  then have "replace ((c # a) @ s) old new = c # replace (a @ s) old new"
    using assms(1) by (simp add: replace_step)
  with Cons show ?case by simp
qed

subsection \<open>One replacement on a well-formed template\<close>

lemma placeholder_Cons: "placeholder name = 123 # 123 # name @ [125, 125]"
  by (simp add: placeholder_def lit_def)

lemma placeholder_prefix:
  assumes "123 \<notin> set n" "125 \<notin> set n" "125 \<notin> set m"
    and "prefix (n @ [125, 125]) (m @ [125, 125] @ s)"
  shows "n = m"
  using assms
proof (induction n arbitrary: m)
  case Nil
  then show ?case by (cases m) auto
next
  case (Cons a n)
  then show ?case by (cases m) auto
qed

lemma replace_other_hole:
  assumes n: "123 \<notin> set n" "125 \<notin> set n" and m: "123 \<notin> set m" "125 \<notin> set m"
    and ne: "m \<noteq> n"
  shows "replace (placeholder m @ s) (placeholder n) v = placeholder m @ replace s (placeholder n) v"
proof -
  let ?old = "placeholder n"
  have old: "?old \<noteq> []" by (simp add: placeholder_Cons)
  have 1: "\<not> prefix ?old (123 # 123 # m @ [125, 125] @ s)"
    using placeholder_prefix [OF n m(2), of s] ne by (auto simp: placeholder_Cons)
  have 2: "\<not> prefix ?old (123 # m @ [125, 125] @ s)"
    using m(1) by (cases m) (auto simp: placeholder_Cons)
  have 3: "replace ((m @ [125, 125]) @ s) ?old v = (m @ [125, 125]) @ replace s ?old v"
    by (rule replace_skip [OF old]) (use m(1) in \<open>simp add: placeholder_Cons\<close>)
  show ?thesis
    using 1 2 3 old by (simp add: placeholder_Cons [of m] replace_step)
qed

lemma replace_render:
  assumes "well_formed ts" and "123 \<notin> set n" and "125 \<notin> set n"
  shows "replace (render ts) (placeholder n) v = render (map (subst1 n v) ts)"
  using assms(1)
proof (induction ts)
  case Nil
  show ?case by (simp add: render_def placeholder_Cons)
next
  case (Cons t ts)
  then have wf: "wf_tok t" and ih: "replace (render ts) (placeholder n) v = render (map (subst1 n v) ts)"
    by (simp_all add: well_formed_def)
  have r: "render (t # ts) = render_tok t @ render ts" by (simp add: render_def)
  have r': "render (map (subst1 n v) (t # ts)) = render_tok (subst1 n v t) @ render (map (subst1 n v) ts)"
    by (simp add: render_def)
  show ?case
  proof (cases t)
    case (Txt x)
    then have "replace (x @ render ts) (placeholder n) v = x @ replace (render ts) (placeholder n) v"
      using wf by (intro replace_skip) (simp_all add: placeholder_Cons)
    then show ?thesis using Txt ih r r' by simp
  next
    case (Hole m)
    show ?thesis
    proof (cases "m = n")
      case True
      have "placeholder n \<noteq> []" by (simp add: placeholder_Cons)
      then show ?thesis using True Hole ih r r'
        by (simp add: replace_match)
    next
      case False
      then show ?thesis using Hole ih r r' wf assms(2,3)
        by (simp add: replace_other_hole)
    qed
  qed
qed

lemma well_formed_subst1:
  "well_formed ts \<Longrightarrow> 123 \<notin> set v \<Longrightarrow> well_formed (map (subst1 n v) ts)"
proof (induction ts)
  case Nil
  then show ?case by (simp add: well_formed_def)
next
  case (Cons t ts)
  then show ?case by (cases t) (auto simp: well_formed_def)
qed

lemma subst_Cons: "subst ((n, v) # \<sigma>) t = subst \<sigma> (subst1 n v t)"
  by (cases t) auto

lemma replace_all_render:
  assumes "well_formed ts"
    and "list_all (\<lambda>(n, v). 123 \<notin> set n \<and> 125 \<notin> set n \<and> 123 \<notin> set v) \<sigma>"
  shows "replace_all (render ts) \<sigma> = render (map (subst \<sigma>) ts)
       \<and> well_formed (map (subst \<sigma>) ts)"
  using assms
proof (induction \<sigma> arbitrary: ts)
  case Nil
  have "map (subst []) ts = ts" by (induction ts) (auto, case_tac a, auto)
  with Nil show ?case by simp
next
  case (Cons p \<sigma>)
  obtain n v where p: "p = (n, v)" by (cases p)
  from Cons.prems p have nv: "123 \<notin> set n" "125 \<notin> set n" "123 \<notin> set v"
    and rest: "list_all (\<lambda>(n, v). 123 \<notin> set n \<and> 125 \<notin> set n \<and> 123 \<notin> set v) \<sigma>"
    by simp_all
  have wf': "well_formed (map (subst1 n v) ts)"
    by (rule well_formed_subst1 [OF Cons.prems(1) nv(3)])
  have m: "map (subst ((n, v) # \<sigma>)) ts = map (subst \<sigma>) (map (subst1 n v) ts)"
    by (simp add: subst_Cons)
  have "replace_all (render ts) (p # \<sigma>) = replace_all (render (map (subst1 n v) ts)) \<sigma>"
    using replace_render [OF Cons.prems(1) nv(1,2), of v] p by simp
  then show ?case
    unfolding p m using Cons.IH [OF wf' rest] by simp
qed

subsection \<open>The filler as a sequence of replacements\<close>

lemma replace_all_append: "replace_all c (\<sigma> @ \<tau>) = replace_all (replace_all c \<sigma>) \<tau>"
  by (induction \<sigma> arbitrary: c) auto

lemma option_placeholder_name: "option_placeholder qnum i = placeholder (option_name qnum i)"
  by (simp add: option_placeholder_def placeholder_def option_name_def lit_def)

lemma question_placeholder_name: "question_placeholder qnum = placeholder (question_name qnum)"
  by (simp add: question_placeholder_def placeholder_def question_name_def lit_def)

lemma answer_placeholder_name:
  "0 < anum \<Longrightarrow> answer_placeholder qnum [64 + anum] = placeholder (answer_name qnum anum)"
  by (simp add: answer_placeholder_def placeholder_def answer_name_def lit_def)

lemma title_placeholder_name: "lit ''{{TITLE}}'' = placeholder (lit ''TITLE'')"
  by (simp add: placeholder_def lit_def)

lemma markRight_replace_all: "markRight c qnum k = replace_all c (option_substs qnum k)"
  by (simp add: markRight_unfold option_substs_def option_placeholder_name correct_value_def)

lemma fill_answers_replace_all:
  "fill_answers c qnum anum answers = Inr r \<Longrightarrow> 0 < anum \<Longrightarrow>
   r = replace_all c (answer_substs qnum anum answers)"
proof (induction answers arbitrary: c anum)
  case Nil
  then show ?case by simp
next
  case (Cons a rest)
  from Cons.prems(1) obtain atext where
    a: "a = JStr atext" and
    r: "fill_answers (replace c (answer_placeholder qnum [64 + anum]) atext) qnum (Suc anum) rest = Inr r"
    by (cases a) (auto simp: chr_py_def split: if_splits)
  from Cons.IH [OF r] have
    "r = replace_all (replace c (answer_placeholder qnum [64 + anum]) atext)
           (answer_substs qnum (Suc anum) rest)" by simp
  then show ?case using a Cons.prems(2) by (simp add: answer_placeholder_name)
qed

lemma fill_question_replace_all:
  "fill_question c qnum q = Inr r \<Longrightarrow> r = replace_all c (question_substs qnum q)"
proof -
  assume a: "fill_question c qnum q = Inr r"
  then obtain qv qtext av answers c2 k where
    1: "getitem q (lit ''QUESTION'') = Inr qv" "as_str qv = Inr qtext"
       "getitem q (lit ''ANSWERS'') = Inr av" "iter av = Inr answers"
       "fill_answers (replace c (question_placeholder qnum) qtext) qnum 1 answers = Inr c2"
       "getitem q (lit ''CORRECT'') = Inr k" "r = markRight c2 qnum k"
    by (auto simp: fill_question_def split: sum.splits)
  have t: "the_str (field q (lit ''QUESTION'')) = qtext"
    using 1(1,2) by (cases qv) (simp_all add: field_def)
  have i: "items (field q (lit ''ANSWERS'')) = answers"
    using 1(3,4) by (simp add: field_def items_def)
  have k: "field q (lit ''CORRECT'') = k" using 1(6) by (simp add: field_def)
  from fill_answers_replace_all [OF 1(5)] have
    "c2 = replace_all (replace c (question_placeholder qnum) qtext) (answer_substs qnum 1 answers)"
    by simp
  then show ?thesis
    using 1(7) t i k
    by (simp add: question_substs_def markRight_replace_all replace_all_append
        question_placeholder_name)
qed

lemma fill_questions_replace_all:
  "fill_questions c qnum qs = Inr r \<Longrightarrow> r = replace_all c (questions_substs qnum qs)"
proof (induction qs arbitrary: c qnum)
  case Nil
  then show ?case by simp
next
  case (Cons q rest)
  from Cons.prems obtain c1 where
    1: "fill_question c qnum q = Inr c1" and 2: "fill_questions c1 (Suc qnum) rest = Inr r"
    by (auto split: sum.splits)
  from Cons.IH [OF 2] fill_question_replace_all [OF 1] show ?case
    by (simp add: replace_all_append)
qed

lemma fill_template_replace_all:
  "fill_template t quiz = Inr r \<Longrightarrow> r = replace_all t (quiz_substs quiz)"
proof -
  assume "fill_template t quiz = Inr r"
  then obtain tv title qv questions where
    1: "getitem quiz (lit ''TITLE'') = Inr tv" "as_str tv = Inr title"
       "getitem quiz (lit ''QUESTIONS'') = Inr qv" "iter qv = Inr questions"
       "fill_questions (replace t (lit ''{{TITLE}}'') title) 1 questions = Inr r"
    by (auto simp: fill_template_def split: sum.splits)
  have t: "the_str (field quiz (lit ''TITLE'')) = title"
    using 1(1,2) by (cases tv) (simp_all add: field_def)
  have i: "items (field quiz (lit ''QUESTIONS'')) = questions"
    using 1(3,4) by (simp add: field_def items_def)
  from fill_questions_replace_all [OF 1(5)] show ?thesis
    using t i by (simp add: quiz_substs_def title_placeholder_name)
qed

lemma replace_shrinks: "old \<noteq> [] \<Longrightarrow> length (replace s old []) \<le> length s"
proof (induction "length s" arbitrary: s rule: less_induct)
  case less
  show ?case
  proof (cases "s = []")
    case True
    then show ?thesis using less.prems by simp
  next
    case False
    show ?thesis
    proof (cases "prefix old s")
      case True
      then obtain rest where s: "s = old @ rest" by (auto simp: prefix_def)
      then have "length rest < length s" using less.prems by simp
      from less.hyps [OF this less.prems] show ?thesis
        using s less.prems by (simp add: replace_match)
    next
      case np: False
      from False obtain c cs where s: "s = c # cs" by (cases s) auto
      then have "length cs < length s" by simp
      from less.hyps [OF this less.prems] show ?thesis
        using s np less.prems by (simp add: replace_step)
    qed
  qed
qed

lemma replace_removes:
  "old \<noteq> [] \<Longrightarrow> sublist old s \<Longrightarrow> length (replace s old []) < length s"
proof (induction s)
  case Nil
  then show ?case by simp
next
  case (Cons c s)
  show ?case
  proof (cases "prefix old (c # s)")
    case True
    then obtain rest where e: "c # s = old @ rest" by (auto simp: prefix_def)
    have "0 < length old" using Cons.prems(1) by simp
    moreover have "length (replace rest old []) \<le> length rest"
      by (rule replace_shrinks [OF Cons.prems(1)])
    ultimately have "length (replace rest old []) < length old + length rest" by linarith
    then show ?thesis
      using Cons.prems(1) unfolding e by (simp add: replace_match)
  next
    case False
    with Cons.prems(2) have "sublist old s" by (simp add: sublist_Cons_right)
    from Cons.IH [OF Cons.prems(1) this] False Cons.prems(1) show ?thesis
      by (simp add: replace_step)
  qed
qed

lemma no_hole_no_placeholder:
  assumes "well_formed ts" and "123 \<notin> set n" and "125 \<notin> set n" and "Hole n \<notin> set ts"
  shows "\<not> sublist (placeholder n) (render ts)"
proof
  assume s: "sublist (placeholder n) (render ts)"
  have "map (subst1 n []) ts = ts"
    using assms(4) by (induction ts) (auto, case_tac a, auto)
  with replace_render [OF assms(1-3), of "[]"] have
    "replace (render ts) (placeholder n) [] = render ts" by simp
  moreover have "placeholder n \<noteq> []" by (simp add: placeholder_Cons)
  ultimately show False using replace_removes [OF _ s, of ] by simp
qed

subsection \<open>Decimal digits\<close>

lemma digits_nonempty: "digits n \<noteq> []"
  by (subst digits.simps) simp

lemma digits_range: "c \<in> set (digits n) \<Longrightarrow> 48 \<le> c \<and> c \<le> 57"
proof (induction n arbitrary: c rule: digits.induct)
  case (1 n)
  show ?case
  proof (cases "n < 10")
    case True
    then show ?thesis using 1(2) by (simp add: digits.simps [of n])
  next
    case False
    from 1(2) False have "c \<in> set (digits (n div 10)) \<or> c = 48 + n mod 10"
      by (auto simp: digits.simps [of n])
    then show ?thesis
    proof
      assume "c \<in> set (digits (n div 10))"
      from 1(1) [OF False this] show ?thesis .
    next
      assume "c = 48 + n mod 10"
      moreover have "n mod 10 < 10" by simp
      ultimately show ?thesis by linarith
    qed
  qed
qed

lemma digits_length_one: "length (digits n) = Suc 0 \<longleftrightarrow> n < 10"
proof (cases "n < 10")
  case True
  then show ?thesis by (simp add: digits.simps [of n])
next
  case False
  have "digits (n div 10) \<noteq> []" by (rule digits_nonempty)
  then have "0 < length (digits (n div 10))" by simp
  then show ?thesis using False by (simp add: digits.simps [of n])
qed

lemma digits_inject: "digits m = digits n \<Longrightarrow> m = n"
proof (induction m arbitrary: n rule: digits.induct)
  case (1 m)
  show ?case
  proof (cases "m < 10")
    case True
    then have "length (digits n) = Suc 0" using 1(2) digits_length_one [of m] by simp
    then have "n < 10" by (simp add: digits_length_one)
    with True 1(2) show ?thesis by (simp add: digits.simps [of m] digits.simps [of n])
  next
    case False
    then have "length (digits n) \<noteq> Suc 0" using 1(2) digits_length_one [of m] by simp
    then have n: "\<not> n < 10" by (simp add: digits_length_one)
    from 1(2) False n have
      "digits (m div 10) @ [48 + m mod 10] = digits (n div 10) @ [48 + n mod 10]"
      by (simp add: digits.simps [of m] digits.simps [of n])
    then have a: "digits (m div 10) = digits (n div 10)" and b: "m mod 10 = n mod 10" by simp_all
    from 1(1) [OF False a] have "m div 10 = n div 10" .
    with b show ?thesis by (metis div_mult_mod_eq)
  qed
qed

lemma brace_free_digits: "123 \<notin> set (digits n)" "125 \<notin> set (digits n)"
  using digits_range [of 123 n] digits_range [of 125 n] by auto

subsection \<open>Occurrences a replacement leaves alone\<close>

lemma overlaps_iff: "overlaps a b \<longleftrightarrow> (\<exists>t. t \<noteq> [] \<and> suffix t a \<and> prefix t b)"
  by (auto simp: overlaps_def list_ex_iff in_set_suffixes)

lemma preserved_by_replace:
  assumes old: "old \<noteq> []"
    and no: "\<not> overlaps P old" "\<not> overlaps old P" "\<not> sublist old P" "\<not> sublist P old"
  shows "sublist P (u @ s) \<Longrightarrow> sublist P (u @ replace s old new)"
proof (induction "length s" arbitrary: s u rule: less_induct)
  case less
  show ?case
  proof (cases "s = []")
    case True
    then show ?thesis using less.prems old by simp
  next
    case False
    show ?thesis
    proof (cases "prefix old s")
      case np: False
      from False obtain c cs where s: "s = c # cs" by (cases s) auto
      have "length cs < length s" using s by simp
      moreover have "sublist P ((u @ [c]) @ cs)" using less.prems s by simp
      ultimately have "sublist P ((u @ [c]) @ replace cs old new)" by (rule less.hyps)
      then show ?thesis using s np old by (simp add: replace_step)
    next
      case True
      then obtain rest where s: "s = old @ rest" by (auto simp: prefix_def)
      have r: "replace s old new = new @ replace rest old new"
        using s old by (simp add: replace_match)
      have lt: "length rest < length s" using s old by simp
      have inrest: "sublist P (u @ replace s old new)" if "sublist P rest"
      proof -
        from that have "sublist P ([] @ rest)" by simp
        with lt have "sublist P ([] @ replace rest old new)" by (rule less.hyps)
        then have "sublist P (replace rest old new)" by simp
        then have "sublist P ((u @ new) @ replace rest old new)"
          by (simp add: sublist_append)
        then show ?thesis using r by simp
      qed
      from less.prems s have "sublist P (u @ (old @ rest))" by simp
      then consider (left) "sublist P u" | (right) "sublist P (old @ rest)"
        | (split) p1 p2 where "P = p1 @ p2" "suffix p1 u" "prefix p2 (old @ rest)"
        unfolding sublist_append by blast
      then show ?thesis
      proof cases
        case left
        then show ?thesis by (simp add: sublist_append)
      next
        case right
        then consider "sublist P old" | "sublist P rest"
          | p1 p2 where "P = p1 @ p2" "suffix p1 old" "prefix p2 rest"
          unfolding sublist_append by blast
        then show ?thesis
        proof cases
          case 1
          with no(4) show ?thesis by simp
        next
          case 2
          then show ?thesis by (rule inrest)
        next
          case (3 p1 p2)
          show ?thesis
          proof (cases "p1 = []")
            case True
            with 3 have "sublist P rest" by (auto intro: prefix_imp_sublist)
            then show ?thesis by (rule inrest)
          next
            case False
            with 3 have "p1 \<noteq> [] \<and> suffix p1 old \<and> prefix p1 P" by simp
            then have "overlaps old P" unfolding overlaps_iff by blast
            with no(2) show ?thesis by simp
          qed
        qed
      next
        case (split p1 p2)
        show ?thesis
        proof (cases "p2 = []")
          case True
          with split have "sublist P u" by (auto intro: suffix_imp_sublist)
          then show ?thesis by (simp add: sublist_append)
        next
          case False
          from split(3) consider "prefix p2 old" | us where "p2 = old @ us"
            unfolding prefix_append by blast
          then show ?thesis
          proof cases
            case 1
            with False split(1) have "p2 \<noteq> [] \<and> suffix p2 P \<and> prefix p2 old"
              by (simp add: suffix_def)
            then have "overlaps P old" unfolding overlaps_iff by blast
            with no(1) show ?thesis by simp
          next
            case 2
            with split(1) have "sublist old P" by (auto simp: sublist_def)
            with no(3) show ?thesis by simp
          qed
        qed
      qed
    qed
  qed
qed

lemma placeholder_prefix_eq:
  assumes "123 \<notin> set n" "125 \<notin> set n" "125 \<notin> set m"
    and "prefix (placeholder n) (placeholder m @ s)"
  shows "n = m"
  using placeholder_prefix [OF assms(1-3), of s] assms(4) by (simp add: placeholder_Cons)

lemma placeholder_not_inside:
  assumes n: "123 \<notin> set n" "125 \<notin> set n" and m: "123 \<notin> set m" "125 \<notin> set m"
    and ne: "n \<noteq> m"
  shows "\<not> sublist (placeholder n) (placeholder m)"
proof
  assume "sublist (placeholder n) (placeholder m)"
  then obtain ps ss where e: "placeholder m = ps @ placeholder n @ ss"
    by (auto simp: sublist_def)
  show False
  proof (cases ps)
    case Nil
    with e have "prefix (placeholder n) (placeholder m @ [])" by (simp add: prefix_def)
    from placeholder_prefix_eq [OF n m(2) this] ne show False by simp
  next
    case (Cons a ps')
    show False
    proof (cases ps')
      case Nil
      with Cons e have "m @ [125, 125] = 123 # n @ [125, 125] @ ss"
        by (simp add: placeholder_Cons)
      then show False using m(1) by (cases m) auto
    next
      case (Cons b ps'')
      with \<open>ps = a # ps'\<close> e have "m @ [125, 125] = ps'' @ 123 # 123 # n @ [125, 125] @ ss"
        by (simp add: placeholder_Cons)
      then have "123 \<in> set (m @ [125, 125])" by (metis in_set_conv_decomp)
      then show False using m(1) by simp
    qed
  qed
qed

lemma placeholder_no_overlap:
  assumes n: "123 \<notin> set n" "125 \<notin> set n" and m: "123 \<notin> set m" "125 \<notin> set m"
    and ne: "n \<noteq> m"
  shows "\<not> overlaps (placeholder n) (placeholder m)"
proof
  assume "overlaps (placeholder n) (placeholder m)"
  then obtain t x y where t: "t \<noteq> []" and x: "placeholder n = x @ t"
    and y: "placeholder m = t @ y"
    by (auto simp: overlaps_iff suffix_def prefix_def)
  from t y have h: "hd t = 123" by (cases t) (auto simp: placeholder_Cons)
  show False
  proof (cases x)
    case Nil
    with x y have "prefix (placeholder n) (placeholder m @ [])" by (simp add: prefix_def)
    from placeholder_prefix_eq [OF n m(2) this] ne show False by simp
  next
    case (Cons a x')
    show False
    proof (cases x')
      case Nil
      with Cons x have t': "t = 123 # n @ [125, 125]" by (simp add: placeholder_Cons)
      with y have "123 # m @ [125, 125] = n @ [125, 125] @ y" by (simp add: placeholder_Cons)
      then show False using n(1) by (cases n) auto
    next
      case (Cons b x'')
      with \<open>x = a # x'\<close> x have "n @ [125, 125] = x'' @ t" by (simp add: placeholder_Cons)
      moreover from t h have "123 \<in> set t" by (cases t) auto
      ultimately have "123 \<in> set (n @ [125, 125])" by (metis Un_iff set_append)
      then show False using n(1) by simp
    qed
  qed
qed

lemma preserved_by_replace_all:
  assumes x: "123 \<notin> set x" "125 \<notin> set x"
    and names: "list_all (\<lambda>(n, v). 123 \<notin> set n \<and> 125 \<notin> set n) \<sigma>"
    and absent: "x \<notin> fst ` set \<sigma>"
  shows "sublist (placeholder x) c \<Longrightarrow> sublist (placeholder x) (replace_all c \<sigma>)"
  using names absent
proof (induction \<sigma> arbitrary: c)
  case Nil
  then show ?case by simp
next
  case (Cons p \<sigma>)
  obtain n v where p: "p = (n, v)" by (cases p)
  from Cons.prems p have n: "123 \<notin> set n" "125 \<notin> set n" and ne: "x \<noteq> n"
    and rest: "list_all (\<lambda>(n, v). 123 \<notin> set n \<and> 125 \<notin> set n) \<sigma>" "x \<notin> fst ` set \<sigma>"
    by auto
  have "placeholder n \<noteq> []" by (simp add: placeholder_Cons)
  moreover have "\<not> overlaps (placeholder x) (placeholder n)"
    by (rule placeholder_no_overlap [OF x n ne])
  moreover have "\<not> overlaps (placeholder n) (placeholder x)"
    by (rule placeholder_no_overlap [OF n x ne [symmetric]])
  moreover have "\<not> sublist (placeholder n) (placeholder x)"
    by (rule placeholder_not_inside [OF n x ne [symmetric]])
  moreover have "\<not> sublist (placeholder x) (placeholder n)"
    by (rule placeholder_not_inside [OF x n ne])
  moreover have "sublist (placeholder x) ([] @ c)" using Cons.prems(1) by simp
  ultimately have "sublist (placeholder x) ([] @ replace c (placeholder n) v)"
    by (rule preserved_by_replace)
  then have "sublist (placeholder x) (replace c (placeholder n) v)" by simp
  from Cons.IH [OF this rest] show ?case using p by simp
qed

subsection \<open>The names a quiz substitutes\<close>

lemma answer_substs_names:
  "(n, v) \<in> set (answer_substs q a answers) \<Longrightarrow>
   \<exists>k. a \<le> k \<and> k < a + length answers \<and> n = answer_name q k \<and> v = the_str (answers ! (k - a))"
proof (induction answers arbitrary: a)
  case Nil
  then show ?case by simp
next
  case (Cons x rest)
  from Cons.prems consider "n = answer_name q a \<and> v = the_str x"
    | "(n, v) \<in> set (answer_substs q (Suc a) rest)" by auto
  then show ?case
  proof cases
    case 1
    then show ?thesis by (intro exI [of _ a]) simp
  next
    case 2
    from Cons.IH [OF this] obtain k where
      k: "Suc a \<le> k" "k < Suc a + length rest" "n = answer_name q k"
         "v = the_str (rest ! (k - Suc a))" by blast
    then have "(x # rest) ! (k - a) = rest ! (k - Suc a)"
      by (metis Suc_diff_le diff_Suc_Suc nth_Cons_Suc)
    with k show ?thesis by (intro exI [of _ k]) simp
  qed
qed

lemma questions_substs_member:
  "(n, v) \<in> set (questions_substs p qs) \<Longrightarrow>
   \<exists>j < length qs. (n, v) \<in> set (question_substs (p + j) (qs ! j))"
proof (induction qs arbitrary: p)
  case Nil
  then show ?case by simp
next
  case (Cons q rest)
  from Cons.prems consider "(n, v) \<in> set (question_substs p q)"
    | "(n, v) \<in> set (questions_substs (Suc p) rest)" by auto
  then show ?case
  proof cases
    case 1
    then show ?thesis by (intro exI [of _ 0]) simp
  next
    case 2
    from Cons.IH [OF this] obtain j where
      "j < length rest" "(n, v) \<in> set (question_substs (Suc p + j) (rest ! j))" by blast
    then show ?thesis by (intro exI [of _ "Suc j"]) simp
  qed
qed

lemma answer_name_inject:
  "answer_name q a = answer_name p k \<Longrightarrow> 0 < a \<Longrightarrow> 0 < k \<Longrightarrow> q = p \<and> a = k"
  by (auto simp: answer_name_def dest: digits_inject)

lemma answer_name_other:
  "answer_name q a \<noteq> lit ''TITLE''" "answer_name q a \<noteq> question_name p"
  "answer_name q a \<noteq> option_name p i"
  by (simp_all add: answer_name_def question_name_def option_name_def lit_def)

lemma brace_free_names:
  "123 \<notin> set (lit ''TITLE'')" "125 \<notin> set (lit ''TITLE'')"
  "123 \<notin> set (question_name p)" "125 \<notin> set (question_name p)"
  "123 \<notin> set (option_name p i)" "125 \<notin> set (option_name p i)"
  "a \<le> 58 \<Longrightarrow> 123 \<notin> set (answer_name p a)" "a \<le> 58 \<Longrightarrow> 125 \<notin> set (answer_name p a)"
  using brace_free_digits
  by (auto simp: question_name_def option_name_def answer_name_def lit_def)

lemma option_substs_names: "map fst (option_substs p c) = map (option_name p) [1, 2, 3, 4]"
  by (simp add: option_substs_def)

lemma question_substs_names:
  assumes "(n, v) \<in> set (question_substs p q)"
  shows "n = question_name p
       \<or> (\<exists>k. 0 < k \<and> k \<le> length (items (field q (lit ''ANSWERS''))) \<and> n = answer_name p k)
       \<or> (\<exists>i. n = option_name p i)"
proof -
  from assms have "(n, v) = (question_name p, the_str (field q (lit ''QUESTION'')))
    \<or> (n, v) \<in> set (answer_substs p 1 (items (field q (lit ''ANSWERS''))))
    \<or> (n, v) \<in> set (option_substs p (field q (lit ''CORRECT'')))"
    unfolding question_substs_def by simp
  then consider "n = question_name p"
    | "(n, v) \<in> set (answer_substs p 1 (items (field q (lit ''ANSWERS''))))"
    | "(n, v) \<in> set (option_substs p (field q (lit ''CORRECT'')))"
    by blast
  then show ?thesis
  proof cases
    case 1
    then show ?thesis by simp
  next
    case 2
    from answer_substs_names [OF this] obtain k where
      "1 \<le> k" "k < 1 + length (items (field q (lit ''ANSWERS'')))" "n = answer_name p k"
      by blast
    then have "0 < k \<and> k \<le> length (items (field q (lit ''ANSWERS''))) \<and> n = answer_name p k"
      by simp
    then show ?thesis by blast
  next
    case 3
    then have "n \<in> set (map fst (option_substs p (field q (lit ''CORRECT''))))" by force
    then have "n \<in> set (map (option_name p) [1, 2, 3, 4])"
      by (simp only: option_substs_names)
    then show ?thesis by auto
  qed
qed

lemma quiz_substs_names:
  assumes "(n, v) \<in> set (quiz_substs quiz)"
  shows "n = lit ''TITLE''
       \<or> (\<exists>j < length (items (field quiz (lit ''QUESTIONS''))).
            n = question_name (Suc j)
          \<or> (\<exists>k. 0 < k
                \<and> k \<le> length (items (field (items (field quiz (lit ''QUESTIONS'')) ! j) (lit ''ANSWERS'')))
                \<and> n = answer_name (Suc j) k)
          \<or> (\<exists>i. n = option_name (Suc j) i))"
proof -
  from assms consider "n = lit ''TITLE''"
    | "(n, v) \<in> set (questions_substs 1 (items (field quiz (lit ''QUESTIONS''))))"
    by (auto simp: quiz_substs_def)
  then show ?thesis
  proof cases
    case 1
    then show ?thesis by simp
  next
    case 2
    from questions_substs_member [OF this] obtain j where
      j: "j < length (items (field quiz (lit ''QUESTIONS'')))"
      "(n, v) \<in> set (question_substs (1 + j) (items (field quiz (lit ''QUESTIONS'')) ! j))"
      by blast
    from question_substs_names [OF j(2)] j(1) show ?thesis by auto
  qed
qed

lemma quiz_substs_brace_free:
  assumes "at_most_58_answers quiz"
  shows "list_all (\<lambda>(n, v). 123 \<notin> set n \<and> 125 \<notin> set n) (quiz_substs quiz)"
proof -
  have "123 \<notin> set n \<and> 125 \<notin> set n" if "(n, v) \<in> set (quiz_substs quiz)" for n v
  proof -
    let ?qs = "items (field quiz (lit ''QUESTIONS''))"
    from quiz_substs_names [OF that] consider "n = lit ''TITLE''"
      | j where "j < length ?qs" "n = question_name (Suc j)"
      | j k where "j < length ?qs" "0 < k"
          "k \<le> length (items (field (?qs ! j) (lit ''ANSWERS'')))" "n = answer_name (Suc j) k"
      | j i where "n = option_name (Suc j) i"
      by blast
    then show ?thesis
    proof cases
      case 1
      then show ?thesis by (simp add: brace_free_names)
    next
      case 2
      then show ?thesis by (simp add: brace_free_names)
    next
      case 3
      from assms 3(1) have "length (items (field (?qs ! j) (lit ''ANSWERS''))) \<le> 58"
        by (simp add: at_most_58_answers_def list_all_length)
      with 3(3) have "k \<le> 58" by simp
      then show ?thesis using 3(4) by (simp add: brace_free_names)
    next
      case 4
      then show ?thesis by (simp add: brace_free_names)
    qed
  qed
  then show ?thesis by (auto simp: list_all_iff)
qed

lemma absent_answer_name:
  assumes "0 < qnum" and "0 < anum"
    and "qnum \<le> length (items (field quiz (lit ''QUESTIONS''))) \<longrightarrow>
         length (items (field (items (field quiz (lit ''QUESTIONS'')) ! (qnum - 1)) (lit ''ANSWERS'')))
           < anum"
  shows "answer_name qnum anum \<notin> fst ` set (quiz_substs quiz)"
proof
  assume "answer_name qnum anum \<in> fst ` set (quiz_substs quiz)"
  then obtain v where "(answer_name qnum anum, v) \<in> set (quiz_substs quiz)" by force
  from quiz_substs_names [OF this] answer_name_other [of qnum anum]
  obtain j k where j: "j < length (items (field quiz (lit ''QUESTIONS'')))" and k: "0 < k"
    "k \<le> length (items (field (items (field quiz (lit ''QUESTIONS'')) ! j) (lit ''ANSWERS'')))"
    "answer_name qnum anum = answer_name (Suc j) k"
    by blast
  from answer_name_inject [OF k(3) assms(2) k(1)] have "qnum = Suc j" "anum = k" by simp_all
  with j k(2) assms(3) show False by simp
qed

subsection \<open>Occurrences a replacement cannot create\<close>

lemma foreign_split:
  assumes f: "foreign_to new P" and s: "sublist P (u @ new @ r)"
  shows "sublist P u \<or> sublist P r"
proof -
  from f have P: "P \<noteq> []" and h: "hd P \<notin> set new" and l: "last P \<notin> set new"
    and c: "\<exists>c \<in> set new. c \<notin> set P"
    by (auto simp: foreign_to_def list_ex_iff)
  from s have "sublist P u \<or> sublist P (new @ r)
      \<or> (\<exists>p1 p2. P = p1 @ p2 \<and> suffix p1 u \<and> prefix p2 (new @ r))"
    by (simp only: sublist_append)
  moreover have "sublist P u \<or> sublist P (new @ r)
      \<or> (p1 \<noteq> [] \<and> p2 \<noteq> [])"
    if "P = p1 @ p2" "suffix p1 u" "prefix p2 (new @ r)" for p1 p2
  proof (cases "p1 = []")
    case True
    with that have "prefix P (new @ r)" by simp
    then show ?thesis by (simp add: prefix_imp_sublist)
  next
    case False
    show ?thesis
    proof (cases "p2 = []")
      case True
      with that have "suffix P u" by simp
      then show ?thesis by (simp add: suffix_imp_sublist)
    next
      case p2: False
      with False show ?thesis by simp
    qed
  qed
  ultimately consider (left) "sublist P u" | (right) "sublist P (new @ r)"
    | (split) p1 p2 where "P = p1 @ p2" "suffix p1 u" "prefix p2 (new @ r)" "p1 \<noteq> []" "p2 \<noteq> []"
    by blast
  then show ?thesis
  proof cases
    case left
    then show ?thesis by simp
  next
    case right
    then have "sublist P new \<or> sublist P r
      \<or> (\<exists>p1 p2. P = p1 @ p2 \<and> suffix p1 new \<and> prefix p2 r)"
      by (simp only: sublist_append)
    moreover have "sublist P r \<or> p1 \<noteq> []"
      if "P = p1 @ p2" "prefix p2 r" for p1 p2
      using that by (cases "p1 = []") (simp_all add: prefix_imp_sublist)
    ultimately consider "sublist P new" | "sublist P r"
      | p1 p2 where "P = p1 @ p2" "suffix p1 new" "prefix p2 r" "p1 \<noteq> []"
      by blast
    then show ?thesis
    proof cases
      case 1
      then have "set P \<subseteq> set new" by (auto simp: sublist_def)
      moreover have "hd P \<in> set P" using P by simp
      ultimately show ?thesis using h by blast
    next
      case 2
      then show ?thesis by simp
    next
      case (3 p1 p2)
      then have "hd P = hd p1" by simp
      moreover have "hd p1 \<in> set p1" using 3(4) by simp
      moreover have "set p1 \<subseteq> set new" using 3(2) by (auto simp: suffix_def)
      ultimately show ?thesis using h by auto
    qed
  next
    case (split p1 p2)
    from split(3) consider "prefix p2 new" | us where "p2 = new @ us"
      unfolding prefix_append by blast
    then show ?thesis
    proof cases
      case 1
      then have "set p2 \<subseteq> set new" by (auto simp: prefix_def)
      moreover have "last P = last p2" using split(1,5) by simp
      moreover have "last p2 \<in> set p2" using split(5) by simp
      ultimately show ?thesis using l by auto
    next
      case 2
      then have "set new \<subseteq> set P" using split(1) by auto
      with c show ?thesis by blast
    qed
  qed
qed

lemma no_new_occurrence:
  assumes old: "old \<noteq> []" and f: "foreign_to new P"
  shows "sublist P (u @ replace s old new) \<Longrightarrow> sublist P (u @ s)"
proof (induction "length s" arbitrary: s u rule: less_induct)
  case less
  show ?case
  proof (cases "s = []")
    case True
    then show ?thesis using less.prems old by simp
  next
    case False
    show ?thesis
    proof (cases "prefix old s")
      case np: False
      from False obtain c cs where s: "s = c # cs" by (cases s) auto
      have "length cs < length s" using s by simp
      moreover have "sublist P ((u @ [c]) @ replace cs old new)"
        using less.prems s np old by (simp add: replace_step)
      ultimately have "sublist P ((u @ [c]) @ cs)" by (rule less.hyps)
      then show ?thesis using s by simp
    next
      case True
      then obtain rest where s: "s = old @ rest" by (auto simp: prefix_def)
      have lt: "length rest < length s" using s old by simp
      from less.prems s old have "sublist P (u @ new @ replace rest old new)"
        by (simp add: replace_match)
      from foreign_split [OF f this] show ?thesis
      proof
        assume "sublist P u"
        then show ?thesis by (simp add: sublist_append)
      next
        assume "sublist P (replace rest old new)"
        then have "sublist P ([] @ replace rest old new)" by simp
        with lt have "sublist P ([] @ rest)" by (rule less.hyps)
        then show ?thesis using s by (simp add: sublist_append)
      qed
    qed
  qed
qed

lemma replaced_is_gone_aux:
  assumes old: "old \<noteq> []" and f: "foreign_to new old"
  shows "\<forall>k < length u. \<not> prefix old (drop k (u @ s)) \<Longrightarrow>
         \<not> sublist old (u @ replace s old new)"
proof (induction "length s" arbitrary: s u rule: less_induct)
  case less
  have inu: False if "sublist old u" for s'
  proof -
    from that obtain ps ss where "u = ps @ old @ ss" by (auto simp: sublist_def)
    then have "length ps < length u" "prefix old (drop (length ps) (u @ s))"
      using old by auto
    with less.prems show False by blast
  qed
  show ?case
  proof (cases "s = []")
    case True
    then show ?thesis using inu old by auto
  next
    case False
    show ?thesis
    proof (cases "prefix old s")
      case np: False
      from False obtain c cs where s: "s = c # cs" by (cases s) auto
      have lt: "length cs < length s" using s by simp
      have "\<forall>k < length (u @ [c]). \<not> prefix old (drop k ((u @ [c]) @ cs))"
      proof (intro allI impI)
        fix k assume "k < length (u @ [c])"
        then consider "k < length u" | "k = length u" by fastforce
        then show "\<not> prefix old (drop k ((u @ [c]) @ cs))"
        proof cases
          case 1
          with less.prems s show ?thesis by simp
        next
          case 2
          with np s show ?thesis by simp
        qed
      qed
      with lt have "\<not> sublist old ((u @ [c]) @ replace cs old new)" by (rule less.hyps)
      then show ?thesis using s np old by (simp add: replace_step)
    next
      case True
      then obtain rest where s: "s = old @ rest" by (auto simp: prefix_def)
      have lt: "length rest < length s" using s old by simp
      have "\<forall>k < length ([]::'a list). \<not> prefix old (drop k ([] @ rest))" by simp
      with lt have "\<not> sublist old ([] @ replace rest old new)" by (rule less.hyps)
      then have nr: "\<not> sublist old (replace rest old new)" by simp
      show ?thesis
      proof
        assume "sublist old (u @ replace s old new)"
        then have "sublist old (u @ new @ replace rest old new)"
          using s old by (simp add: replace_match)
        from foreign_split [OF f this] nr inu show False by blast
      qed
    qed
  qed
qed

lemma replaced_is_gone:
  assumes "old \<noteq> []" and "foreign_to new old"
  shows "\<not> sublist old (replace s old new)"
  using replaced_is_gone_aux [OF assms, of "[]" s] by simp

lemma stays_gone:
  "old \<noteq> [] \<Longrightarrow> foreign_to new P \<Longrightarrow> \<not> sublist P s \<Longrightarrow> \<not> sublist P (replace s old new)"
  using no_new_occurrence [of old new P "[]" s] by auto

lemma option_placeholder_chars:
  "c \<in> set (option_placeholder q i) \<Longrightarrow>
   c \<in> {123, 125, 79, 112, 116, 105, 111, 110, 95} \<or> (48 \<le> c \<and> c \<le> 57)"
  using digits_range [of c q] digits_range [of c i]
  by (auto simp: option_placeholder_def lit_def)

lemma mark_foreign: "foreign_to (correct_value j k) (option_placeholder q i)"
proof -
  have 1: "option_placeholder q i \<noteq> []" "hd (option_placeholder q i) = 123"
    "last (option_placeholder q i) = 125"
    by (simp_all add: option_placeholder_def lit_def)
  have 2: "101 \<notin> set (option_placeholder q i)"
    using option_placeholder_chars [of 101 q i] by auto
  have 3: "101 \<in> set (correct_value j k)" "123 \<notin> set (correct_value j k)"
    "125 \<notin> set (correct_value j k)"
    by (simp_all add: correct_value_def lit_def)
  show ?thesis
    unfolding foreign_to_def list_ex_iff using 1 2 3 by auto
qed

lemma option_placeholder_nonempty: "option_placeholder q i \<noteq> []"
  by (simp add: option_placeholder_def lit_def)

lemma markRight_resolves:
  assumes "i \<in> {1, 2, 3, 4}"
  shows "\<not> sublist (option_placeholder qnum i) (markRight c qnum k)"
proof -
  note g = replaced_is_gone [OF option_placeholder_nonempty mark_foreign]
  note s = stays_gone [OF option_placeholder_nonempty mark_foreign]
  from assms consider "i = 1" | "i = 2" | "i = 3" | "i = 4" by auto
  then show ?thesis
  proof cases
    case 1
    show ?thesis unfolding markRight_unfold 1 by (rule s, rule s, rule s, rule g)
  next
    case 2
    show ?thesis unfolding markRight_unfold 2 by (rule s, rule s, rule g)
  next
    case 3
    show ?thesis unfolding markRight_unfold 3 by (rule s, rule g)
  next
    case 4
    show ?thesis unfolding markRight_unfold 4 by (rule g)
  qed
qed

subsection \<open>The filler as a single pass\<close>

lemma option_name_inject [simp]: "option_name q i = option_name q j \<longleftrightarrow> i = j"
  by (auto simp: option_name_def dest: digits_inject)

lemma option_substs_brace_free:
  "list_all (\<lambda>(n, v). 123 \<notin> set n \<and> 125 \<notin> set n \<and> 123 \<notin> set v) (option_substs q k)"
  by (simp add: option_substs_def brace_free_names) (simp add: lit_def)

lemma fill_template_render:
  assumes "well_formed ts" and "at_most_58_answers quiz" and "plain_values quiz"
    and "fill_template (render ts) quiz = Inr r"
  shows "r = render (map (subst (quiz_substs quiz)) ts)"
    and "well_formed (map (subst (quiz_substs quiz)) ts)"
proof -
  have "list_all (\<lambda>(n, v). 123 \<notin> set n \<and> 125 \<notin> set n \<and> 123 \<notin> set v) (quiz_substs quiz)"
    using quiz_substs_brace_free [OF assms(2)] assms(3)
    by (auto simp: plain_values_def list_all_iff)
  from replace_all_render [OF assms(1) this] fill_template_replace_all [OF assms(4)]
  show "r = render (map (subst (quiz_substs quiz)) ts)"
    and "well_formed (map (subst (quiz_substs quiz)) ts)" by simp_all
qed

lemma answer_substs_lookup:
  "0 < a \<Longrightarrow> 0 < k \<Longrightarrow>
   map_of (answer_substs q a answers) (answer_name q k)
     = (if a \<le> k \<and> k < a + length answers then Some (the_str (answers ! (k - a))) else None)"
proof (induction answers arbitrary: a)
  case Nil
  then show ?case by simp
next
  case (Cons x rest)
  show ?case
  proof (cases "k = a")
    case True
    then show ?thesis by simp
  next
    case False
    then have ne: "answer_name q a \<noteq> answer_name q k"
      using answer_name_inject [of q a q k] Cons.prems by auto
    have ih: "map_of (answer_substs q (Suc a) rest) (answer_name q k)
     = (if Suc a \<le> k \<and> k < Suc a + length rest then Some (the_str (rest ! (k - Suc a))) else None)"
      by (rule Cons.IH) (use Cons.prems in simp_all)
    have "(x # rest) ! (k - a) = rest ! (k - Suc a)" if "Suc a \<le> k"
      using that by (metis Suc_diff_le diff_Suc_Suc nth_Cons_Suc)
    then show ?thesis using ne ih False by auto
  qed
qed

lemma answer_substs_brace_free:
  assumes "0 < a" and "a + length answers \<le> 59"
    and "list_all (\<lambda>x. 123 \<notin> set (the_str x)) answers"
  shows "list_all (\<lambda>(n, v). 123 \<notin> set n \<and> 125 \<notin> set n \<and> 123 \<notin> set v)
           (answer_substs q a answers)"
  using assms
proof (induction answers arbitrary: a)
  case Nil
  then show ?case by simp
next
  case (Cons x rest)
  then have "a \<le> 58" by simp
  then have "123 \<notin> set (answer_name q a)" "125 \<notin> set (answer_name q a)"
    by (simp_all add: brace_free_names)
  moreover have "list_all (\<lambda>(n, v). 123 \<notin> set n \<and> 125 \<notin> set n \<and> 123 \<notin> set v)
           (answer_substs q (Suc a) rest)"
    by (rule Cons.IH) (use Cons.prems in simp_all)
  ultimately show ?case using Cons.prems(3) by simp
qed

lemma answer_substs_fst:
  "map fst (answer_substs q a answers) = map (answer_name q) [a ..< a + length answers]"
proof (induction answers arbitrary: a)
  case Nil
  then show ?case by simp
next
  case (Cons x rest)
  have "[a ..< a + length (x # rest)] = a # [Suc a ..< Suc a + length rest]"
    by (simp add: upt_rec)
  with Cons.IH [of "Suc a"] show ?case by simp
qed

lemma answer_substs_snd: "map snd (answer_substs q a answers) = map the_str answers"
  by (induction answers arbitrary: a) simp_all

lemma fill_answers_strings:
  "fill_answers c q a answers = Inr r \<Longrightarrow> map (JStr \<circ> the_str) answers = answers"
proof (induction answers arbitrary: c a)
  case Nil
  then show ?case by simp
next
  case (Cons x rest)
  from Cons.prems obtain atext where
    x: "x = JStr atext" and
    r: "fill_answers (replace c (answer_placeholder q [64 + a]) atext) q (Suc a) rest = Inr r"
    by (cases x) (auto simp: chr_py_def split: if_splits)
  from Cons.IH [OF r] x show ?case by simp
qed

subsection \<open>The example template\<close>

lemmas token_defs = render_def placeholder_def well_formed_def field_def items_def
  quiz_substs_def question_substs_def option_substs_def answer_name_def option_name_def
  question_name_def plain_values_def at_most_58_answers_def

lemma render_example: "render example_tokens = example_template"
  by (simp add: example_tokens_def example_template_def render_def placeholder_def lit_def)

lemma example_filled: "fill_template example_template example_quiz
       = Inr (lit ''Quiz A:2+2? 3456 false,true,false,false'')"
  by (simp add: eval_defs example_quiz_def example_question_def example_template_def)

lemma example_well_formed: "well_formed example_tokens"
  by (simp add: example_tokens_def well_formed_def lit_def)

lemma example_at_most_58: "at_most_58_answers example_quiz"
  by (simp add: token_defs example_quiz_def example_question_def lit_def)

lemma example_plain: "plain_values example_quiz"
  by (simp add: token_defs example_quiz_def example_question_def lit_def digits_small)

lemma example_single_pass: "render (map (subst (quiz_substs example_quiz)) example_tokens) = lit ''Quiz A:2+2? 3456 false,true,false,false''"
  by (simp add: token_defs example_quiz_def example_question_def lit_def digits_small example_tokens_def)

section \<open>Runs of the handler on the example data\<close>

lemma generate_xmls_checked:
  assumes "quiz_json req = Some (Inr d)" and "strip (form_base_name req) = bn" and "bn \<noteq> []"
    and "xml_template_file ev = Inr t" and "meta_block_file ev = Inr mb"
    and "get_quizzes d = Inr qv" and "iter qv = Inr quizzes"
  shows "generate_xmls repr ev req =
      (case write_all repr (clock ev) bn t mb 1 quizzes of
         Inl e \<Rightarrow> Raised e | Inr entries \<Rightarrow> send_file entries (bn @ lit ''_xmls.zip''))"
  using assms by (simp add: generate_xmls_def load_templates_def package_def Let_def)

lemma generate_xmls_SendFile_iff:
  assumes "quiz_json req = Some (Inr d)" and "strip (form_base_name req) = bn" and "bn \<noteq> []"
    and "xml_template_file ev = Inr t" and "meta_block_file ev = Inr mb"
    and "get_quizzes d = Inr qv" and "iter qv = Inr quizzes"
  shows "generate_xmls repr ev req = SendFile entries download_name \<longleftrightarrow>
      write_all repr (clock ev) bn t mb 1 quizzes = Inr entries
    \<and> download_name = bn @ lit ''_xmls.zip''
    \<and> encodable download_name \<and> header_safe download_name"
  unfolding generate_xmls_checked [OF assms]
  by (cases "write_all repr (clock ev) bn t mb 1 quizzes")
     (auto simp: send_file_SendFile_iff)

lemma generate_xmls_SendFile:
  assumes "generate_xmls repr ev req = SendFile entries download_name"
  obtains d t mb qv quizzes where
    "quiz_json req = Some (Inr d)" "strip (form_base_name req) \<noteq> []"
    "xml_template_file ev = Inr t" "meta_block_file ev = Inr mb"
    "get_quizzes d = Inr qv" "iter qv = Inr quizzes"
    "write_all repr (clock ev) (strip (form_base_name req)) t mb 1 quizzes = Inr entries"
    "download_name = strip (form_base_name req) @ lit ''_xmls.zip''"
  using assms
  by (auto simp: generate_xmls_def load_templates_def package_def send_file_def Let_def
      split: option.splits sum.splits if_splits exn.splits)

lemma full_xml_Inr_iff:
  "full_xml repr t mb quiz = Inr doc \<longleftrightarrow>
     (\<exists>quiz_content idv.
         fill_template t quiz = Inr quiz_content
       \<and> getitem quiz (lit ''id'') = Inr idv
       \<and> doc = quiz_content @ replace mb (lit ''{{ID}}'') (py_str repr idv))"
  by (auto simp: full_xml_def split: sum.splits)

lemma small_run:
  "generate_xmls repr small_env small_request
     = SendFile [\<lparr>filename = lit ''q_1.xml'', data = lit ''T7'', date_time = 1\<rparr>] (lit ''q_xmls.zip'')"
  by (simp add: eval_defs small_env_def small_request_def small_quiz_def)

lemma strip_q: "strip (lit ''q'') = lit ''q''"
  by (simp add: eval_defs)

lemma strip_math: "strip (lit '' math '') = lit ''math''"
  by (simp add: eval_defs)

lemma dropWhile_id: "s \<noteq> [] \<Longrightarrow> \<not> P (hd s) \<Longrightarrow> dropWhile P s = s"
  by (cases s) simp_all

lemma strip_idem: "strip (strip v) = strip v"
proof (cases "strip v = []")
  case True
  have "strip [] = ([]::pystr)" by (simp add: strip_def)
  then show ?thesis unfolding True .
next
  case False
  note e = strip_ends [OF False]
  have 1: "dropWhile isspace (strip v) = strip v"
    using False e(1) by (rule dropWhile_id)
  have "rev (strip v) \<noteq> []" using False by simp
  moreover have "\<not> isspace (hd (rev (strip v)))" using e(2) False by (simp add: hd_rev)
  ultimately have 2: "dropWhile isspace (rev (strip v)) = rev (strip v)" by (rule dropWhile_id)
  show ?thesis by (subst (1) strip_def) (simp add: 1 2)
qed

section \<open>Claims about the request handler\<close>

text \<open>
  C6: a request without the \<open>quiz_json\<close> part, with a missing or blank base name, or whose
  JSON does not parse is answered with 400 and no archive, the message of a parse failure
  holding the parser's text; when those checks pass and a template file is not found the
  answer is 500; otherwise the handler goes on to package the quizzes.
\<close>

theorem generate_xmls_request_checks:
  "((quiz_json req = None \<or> strip (form_base_name req) = [] \<or> quiz_json req = Some (Inl e))
      \<longrightarrow> http_status (generate_xmls repr ev req) = 400
          \<and> archive_of (generate_xmls repr ev req) = None)
   \<and> (quiz_json req = Some (Inl e) \<and> strip (form_base_name req) \<noteq> []
      \<longrightarrow> generate_xmls repr ev req = Abort 400 (lit ''Invalid JSON: '' @ e))
   \<and> (quiz_json req = Some (Inr d) \<and> strip (form_base_name req) \<noteq> [] \<and>
       (xml_template_file ev = Inl (FileNotFoundError m) \<or>
        xml_template_file ev = Inr t \<and> meta_block_file ev = Inl (FileNotFoundError m))
      \<longrightarrow> generate_xmls repr ev req = Abort 500 (lit ''Template files not found: '' @ m))
   \<and> (quiz_json req = Some (Inr d) \<and> strip (form_base_name req) \<noteq> [] \<and>
       xml_template_file ev = Inr t \<and> meta_block_file ev = Inr mb
      \<longrightarrow> generate_xmls repr ev req
            = package repr (clock ev) (strip (form_base_name req)) t mb d)"
  by (auto simp: generate_xmls_def load_templates_def Let_def split: option.splits sum.splits)

theorem generate_xmls_request_checks_witness:
  "generate_xmls example_repr small_env no_file_request = Abort 400 (lit ''No JSON file part'')
   \<and> generate_xmls example_repr small_env bad_json_request
       = Abort 400 (lit ''Invalid JSON: Expecting value'')
   \<and> generate_xmls example_repr no_xml_env small_request
       = Abort 500 (lit ''Template files not found: xml_template.xml'')
   \<and> generate_xmls example_repr no_meta_env small_request
       = Abort 500 (lit ''Template files not found: meta_block.xml'')
   \<and> generate_xmls example_repr small_env small_request
       = package example_repr (\<lambda>n. n) (lit ''q'') (lit ''{{TITLE}}'') (lit ''{{ID}}'')
           (JDict [(lit ''quizzes'', JList [small_quiz])])"
proof -
  have s: "strip (lit ''q'') = lit ''q''" by (simp add: eval_defs)
  note a = generate_xmls_request_checks [of no_file_request "[]" example_repr small_env]
  note b = generate_xmls_request_checks
    [of bad_json_request "lit ''Expecting value''" example_repr small_env]
  note c = generate_xmls_request_checks
    [of small_request _ example_repr no_xml_env "JDict [(lit ''quizzes'', JList [small_quiz])]"
        "lit ''xml_template.xml''"]
  note d = generate_xmls_request_checks
    [of small_request _ example_repr no_meta_env "JDict [(lit ''quizzes'', JList [small_quiz])]"
        "lit ''meta_block.xml''" "lit ''{{TITLE}}''"]
  note e = generate_xmls_request_checks
    [of small_request _ example_repr small_env "JDict [(lit ''quizzes'', JList [small_quiz])]"
        _ "lit ''{{TITLE}}''" "lit ''{{ID}}''"]
  have 1: "generate_xmls example_repr small_env no_file_request = Abort 400 (lit ''No JSON file part'')"
    by (simp add: generate_xmls_def no_file_request_def)
  have 2: "generate_xmls example_repr small_env bad_json_request
       = Abort 400 (lit ''Invalid JSON: Expecting value'')"
    using b s by (simp add: bad_json_request_def form_base_name_def lit_def)
  have 3: "generate_xmls example_repr no_xml_env small_request
       = Abort 500 (lit ''Template files not found: xml_template.xml'')"
    using c s by (simp add: small_request_def no_xml_env_def form_base_name_def lit_def)
  have 4: "generate_xmls example_repr no_meta_env small_request
       = Abort 500 (lit ''Template files not found: meta_block.xml'')"
    using d s by (simp add: small_request_def no_meta_env_def form_base_name_def lit_def)
  have 5: "generate_xmls example_repr small_env small_request
       = package example_repr (\<lambda>n. n) (lit ''q'') (lit ''{{TITLE}}'') (lit ''{{ID}}'')
           (JDict [(lit ''quizzes'', JList [small_quiz])])"
    using e s by (simp add: small_request_def small_env_def form_base_name_def lit_def)
  from a 1 2 3 4 5 show ?thesis by simp
qed

text \<open>
  C9, as the code has it: when the checks pass, both templates are read and the parsed JSON
  is an object without a \<open>quizzes\<close> key, or mapping it to the empty list, no error is raised
  for the missing key and no entry is written; what happens next depends on the stripped base
  name alone.  If it holds no carriage return and no line feed (and no surrogate), the
  request succeeds with status 200 and an archive without entries; otherwise \<open>send_file\<close>
  raises and the status is 500.
\<close>

theorem no_quizzes_empty_archive:
  assumes "quiz_json req = Some (Inr (JDict kvs))"
    and "map_of kvs (lit ''quizzes'') = None \<or> map_of kvs (lit ''quizzes'') = Some (JList [])"
    and "strip (form_base_name req) = bn" and "bn \<noteq> []"
    and "xml_template_file ev = Inr t" and "meta_block_file ev = Inr mb"
  shows "generate_xmls repr ev req =
           (if \<not> encodable bn then Raised UnicodeEncodeError
            else if 10 \<in> set bn \<or> 13 \<in> set bn then Raised ValueError
            else SendFile [] (bn @ lit ''_xmls.zip''))
       \<and> (http_status (generate_xmls repr ev req) = 200
            \<longleftrightarrow> encodable bn \<and> 10 \<notin> set bn \<and> 13 \<notin> set bn)"
proof -
  have h: "header_safe bn \<longleftrightarrow> 10 \<notin> set bn \<and> 13 \<notin> set bn"
    by (auto simp: header_safe_def list_ex_iff)
  from assms(2) have q: "get_quizzes (JDict kvs) = Inr (JList [])"
    by (auto simp: get_quizzes_def)
  have i: "iter (JList []) = Inr []" by simp
  have "generate_xmls repr ev req = send_file [] (bn @ lit ''_xmls.zip'')"
    using generate_xmls_checked [OF assms(1,3,4,5,6) q i, of repr] by simp
  then have g: "generate_xmls repr ev req =
           (if \<not> encodable bn then Raised UnicodeEncodeError
            else if 10 \<in> set bn \<or> 13 \<in> set bn then Raised ValueError
            else SendFile [] (bn @ lit ''_xmls.zip''))"
    using h by (simp add: send_file_def download_name_ok)
  then have "http_status (generate_xmls repr ev req) = 200
            \<longleftrightarrow> encodable bn \<and> 10 \<notin> set bn \<and> 13 \<notin> set bn"
    by simp
  with g show ?thesis by (rule conjI)
qed

theorem no_quizzes_empty_archive_witness:
  "generate_xmls example_repr small_env no_quizzes_request = SendFile [] (lit ''q_xmls.zip'')
   \<and> http_status (generate_xmls example_repr small_env no_quizzes_request) = 200"
proof -
  have 1: "quiz_json no_quizzes_request = Some (Inr (JDict [(lit ''version'', JInt 2)]))"
    by (simp add: no_quizzes_request_def)
  have 2: "map_of [(lit ''version'', JInt 2)] (lit ''quizzes'') = None
         \<or> map_of [(lit ''version'', JInt 2)] (lit ''quizzes'') = Some (JList [])"
    by (simp add: lit_def)
  have 3: "strip (form_base_name no_quizzes_request) = lit ''q''"
    by (simp add: no_quizzes_request_def form_base_name_def strip_q)
  have 4: "lit ''q'' \<noteq> []" by (simp add: lit_def)
  have 5: "xml_template_file small_env = Inr (lit ''{{TITLE}}'')"
    and 6: "meta_block_file small_env = Inr (lit ''{{ID}}'')"
    by (simp_all add: small_env_def)
  have 7: "encodable (lit ''q'')" "10 \<notin> set (lit ''q'')" "13 \<notin> set (lit ''q'')"
    by (simp_all add: lit_def encodable_def)
  have 8: "lit ''q'' @ lit ''_xmls.zip'' = lit ''q_xmls.zip''" by (simp add: lit_def)
  note t = no_quizzes_empty_archive [OF 1 2 3 4 5 6, of example_repr]
  from t 7 8 have a: "generate_xmls example_repr small_env no_quizzes_request
      = SendFile [] (lit ''q_xmls.zip'')"
    by simp
  from t 7 have b: "http_status (generate_xmls example_repr small_env no_quizzes_request) = 200"
    by blast
  from a b show ?thesis by (rule conjI)
qed

text \<open>
  C9 as stated fails: a JSON object without \<open>quizzes\<close> sent with the base name \<open>a<LF>b\<close>
  passes the checks and is answered with 500, and so is a JSON document whose top level is
  a list, which has no \<open>get\<close>.
\<close>

theorem no_quizzes_not_200:
  "generate_xmls example_repr small_env newline_request = Raised ValueError
   \<and> http_status (generate_xmls example_repr small_env newline_request) = 500
   \<and> generate_xmls example_repr small_env list_request = Raised AttributeError
   \<and> http_status (generate_xmls example_repr small_env list_request) = 500"
  by (simp add: eval_defs small_env_def newline_request_def list_request_def)

text \<open>
  C5, as the code has it: when the checks pass, the archive is returned exactly when every
  quiz record fills, every text and name can be written and the download name can be put
  into the header.  It then has one entry per quiz record, in submission order; entry \<open>i\<close>
  (counted from 1) is named \<open><base_name>_<i>.xml\<close> cut at its first NUL character, which
  is \<open><base_name>_<i>.xml\<close> itself when the base name holds no NUL, and holds the filled
  quiz template followed directly by the meta block with \<open>{{ID}}\<close> replaced by
  \<open>str(quiz["id"])\<close>; the download name is \<open><base_name>_xmls.zip\<close>.
\<close>

theorem archive_returned:
  assumes "quiz_json req = Some (Inr d)" and "get_quizzes d = Inr qv" and "iter qv = Inr quizzes"
    and "xml_template_file ev = Inr t" and "meta_block_file ev = Inr mb"
    and "strip (form_base_name req) = bn" and "bn \<noteq> []"
  shows "(generate_xmls repr ev req = SendFile entries download_name \<longleftrightarrow>
        length entries = length quizzes
      \<and> (\<forall>i < length quizzes.
            filename (entries ! i) = sanitize (bn @ lit ''_'' @ digits (i + 1) @ lit ''.xml'')
          \<and> writable_name (filename (entries ! i))
          \<and> date_time (entries ! i) = clock ev (i + 1)
          \<and> encodable (data (entries ! i))
          \<and> (\<exists>quiz_content idv.
                fill_template t (quizzes ! i) = Inr quiz_content
              \<and> getitem (quizzes ! i) (lit ''id'') = Inr idv
              \<and> data (entries ! i)
                  = quiz_content @ replace mb (lit ''{{ID}}'') (py_str repr idv)))
      \<and> download_name = bn @ lit ''_xmls.zip''
      \<and> encodable download_name \<and> header_safe download_name)
    \<and> (0 \<notin> set bn \<longrightarrow>
         sanitize (bn @ lit ''_'' @ digits n @ lit ''.xml'')
           = bn @ lit ''_'' @ digits n @ lit ''.xml'')"
proof (rule conjI)
  show "0 \<notin> set bn \<longrightarrow>
         sanitize (bn @ lit ''_'' @ digits n @ lit ''.xml'')
           = bn @ lit ''_'' @ digits n @ lit ''.xml''"
    using sanitize_entry_name [of bn n] by blast
next
  have f: "(full_xml repr t mb (quizzes ! i) = Inr (data (entries ! i)))
           = (\<exists>quiz_content idv.
                fill_template t (quizzes ! i) = Inr quiz_content
              \<and> getitem (quizzes ! i) (lit ''id'') = Inr idv
              \<and> data (entries ! i)
                  = quiz_content @ replace mb (lit ''{{ID}}'') (py_str repr idv))" for i
    by (rule full_xml_Inr_iff)
  have n: "entry_name bn (1 + i) = bn @ lit ''_'' @ digits (i + 1) @ lit ''.xml''" for i
    by (simp add: entry_name_def)
  have c: "clock ev (1 + i) = clock ev (i + 1)" for i by simp
  show "generate_xmls repr ev req = SendFile entries download_name \<longleftrightarrow>
        length entries = length quizzes
      \<and> (\<forall>i < length quizzes.
            filename (entries ! i) = sanitize (bn @ lit ''_'' @ digits (i + 1) @ lit ''.xml'')
          \<and> writable_name (filename (entries ! i))
          \<and> date_time (entries ! i) = clock ev (i + 1)
          \<and> encodable (data (entries ! i))
          \<and> (\<exists>quiz_content idv.
                fill_template t (quizzes ! i) = Inr quiz_content
              \<and> getitem (quizzes ! i) (lit ''id'') = Inr idv
              \<and> data (entries ! i)
                  = quiz_content @ replace mb (lit ''{{ID}}'') (py_str repr idv)))
      \<and> download_name = bn @ lit ''_xmls.zip''
      \<and> encodable download_name \<and> header_safe download_name"
    unfolding generate_xmls_SendFile_iff [OF assms(1,6,7,4,5,2,3)] write_all_Inr_iff n c f
    by blast
qed

theorem archive_returned_witness:
  "generate_xmls example_repr example_env example_request
     = SendFile [\<lparr>filename = lit ''math_1.xml'',
                  data = lit ''Quiz A:2+2? 3456 false,true,false,false<id>1</id>'',
                  date_time = 0\<rparr>] (lit ''math_xmls.zip'')
   \<and> sanitize (lit ''math'' @ lit ''_'' @ digits 1 @ lit ''.xml'')
     = lit ''math'' @ lit ''_'' @ digits 1 @ lit ''.xml''"
proof -
  let ?z = "\<lparr>filename = lit ''math_1.xml'',
      data = lit ''Quiz A:2+2? 3456 false,true,false,false<id>1</id>'', date_time = 0\<rparr>"
  have 1: "quiz_json example_request = Some (Inr example_data)"
    by (simp add: example_request_def)
  have 2: "get_quizzes example_data = Inr (JList [example_quiz])"
    by (simp add: get_quizzes_def example_data_def)
  have 3: "iter (JList [example_quiz]) = Inr [example_quiz]" by simp
  have 4: "xml_template_file example_env = Inr example_template"
    and 5: "meta_block_file example_env = Inr example_meta"
    by (simp_all add: example_env_def)
  have 6: "strip (form_base_name example_request) = lit ''math''"
    by (simp add: example_request_def form_base_name_def strip_math)
  have 7: "lit ''math'' \<noteq> []" by (simp add: lit_def)
  note t = archive_returned [OF 1 2 3 4 5 6 7, of example_repr "[?z]" "lit ''math_xmls.zip''" 1]
  have f: "fill_template example_template example_quiz
       = Inr (lit ''Quiz A:2+2? 3456 false,true,false,false'')"
    by (simp add: eval_defs example_quiz_def example_question_def example_template_def)
  have i: "getitem example_quiz (lit ''id'') = Inr (JInt 1)"
    by (simp add: example_quiz_def lit_def)
  have m: "lit ''Quiz A:2+2? 3456 false,true,false,false<id>1</id>''
      = lit ''Quiz A:2+2? 3456 false,true,false,false''
        @ replace example_meta (lit ''{{ID}}'') (py_str example_repr (JInt 1))"
    by (simp add: eval_defs example_meta_def)
  have n: "lit ''math_1.xml'' = sanitize (lit ''math'' @ lit ''_'' @ digits (0 + 1) @ lit ''.xml'')"
    by (simp add: eval_defs)
  have w: "writable_name (lit ''math_1.xml'')"
    by (simp add: writable_name_def eval_defs)
  have e: "encodable (lit ''Quiz A:2+2? 3456 false,true,false,false<id>1</id>'')"
    by (simp add: eval_defs)
  have c: "clock example_env (0 + 1) = 0" by (simp add: example_env_def)
  have z: "lit ''math_xmls.zip'' = lit ''math'' @ lit ''_xmls.zip''" by (simp add: lit_def)
  have h: "encodable (lit ''math_xmls.zip'')" "header_safe (lit ''math_xmls.zip'')"
    by (simp_all add: eval_defs)
  have x: "\<exists>quiz_content idv.
        fill_template example_template example_quiz = Inr quiz_content
      \<and> getitem example_quiz (lit ''id'') = Inr idv
      \<and> lit ''Quiz A:2+2? 3456 false,true,false,false<id>1</id>''
          = quiz_content @ replace example_meta (lit ''{{ID}}'') (py_str example_repr idv)"
    using f i m by blast
  have r: "length [?z] = length [example_quiz]
      \<and> (\<forall>i < length [example_quiz].
            filename ([?z] ! i) = sanitize (lit ''math'' @ lit ''_'' @ digits (i + 1) @ lit ''.xml'')
          \<and> writable_name (filename ([?z] ! i))
          \<and> date_time ([?z] ! i) = clock example_env (i + 1)
          \<and> encodable (data ([?z] ! i))
          \<and> (\<exists>quiz_content idv.
                fill_template example_template ([example_quiz] ! i) = Inr quiz_content
              \<and> getitem ([example_quiz] ! i) (lit ''id'') = Inr idv
              \<and> data ([?z] ! i)
                  = quiz_content @ replace example_meta (lit ''{{ID}}'') (py_str example_repr idv)))
      \<and> lit ''math_xmls.zip'' = lit ''math'' @ lit ''_xmls.zip''
      \<and> encodable (lit ''math_xmls.zip'') \<and> header_safe (lit ''math_xmls.zip'')"
    using n w c e x z h by simp
  from t r have a: "generate_xmls example_repr example_env example_request
      = SendFile [?z] (lit ''math_xmls.zip'')"
    by blast
  have "0 \<notin> set (lit ''math'')" by (simp add: lit_def)
  with t have b: "sanitize (lit ''math'' @ lit ''_'' @ digits 1 @ lit ''.xml'')
     = lit ''math'' @ lit ''_'' @ digits 1 @ lit ''.xml''"
    by blast
  from a b show ?thesis by (rule conjI)
qed

text \<open>
  C5 as stated fails: with the base name \<open>a<NUL>b\<close> the archive is returned and its entry
  is named \<open>a\<close>, not \<open>a<NUL>b_1.xml\<close>.
\<close>

theorem entry_name_cut:
  "generate_xmls example_repr small_env nul_request
     = SendFile [\<lparr>filename = lit ''a'', data = lit ''T7'', date_time = 1\<rparr>]
         (lit ''a'' @ [0] @ lit ''b_xmls.zip'')
   \<and> lit ''a'' \<noteq> lit ''a'' @ [0] @ lit ''b_1.xml''"
  by (simp add: eval_defs small_env_def nul_request_def small_quiz_def)

text \<open>
  C8: two runs with the same uploaded JSON, the same base name and the same template files
  put the same names and texts into their archives, whatever the clock says.
\<close>

theorem contents_deterministic:
  assumes "quiz_json r1 = quiz_json r2" and "base_name r1 = base_name r2"
    and "xml_template_file e1 = xml_template_file e2"
    and "meta_block_file e1 = meta_block_file e2"
  shows "contents (generate_xmls repr e1 r1) = contents (generate_xmls repr e2 r2)"
proof -
  have s: "contents (send_file es1 dl) = contents (send_file es2 dl)"
    if "map (\<lambda>z. (filename z, data z)) es1 = map (\<lambda>z. (filename z, data z)) es2"
    for es1 es2 dl
    using that by (simp add: send_file_def contents_def)
  have p: "contents (package repr c1 bn t mb d) = contents (package repr c2 bn t mb d)"
    for c1 c2 bn t mb d
  proof (cases "get_quizzes d")
    case (Inl e)
    then show ?thesis by (simp add: package_def)
  next
    case qv: (Inr qv)
    show ?thesis
    proof (cases "iter qv")
      case (Inl e)
      then show ?thesis using qv by (simp add: package_def)
    next
      case (Inr quizzes)
      note w = write_all_clock [of repr c1 bn t mb 1 quizzes c2]
      show ?thesis
      proof (cases "write_all repr c1 bn t mb 1 quizzes")
        case a: (Inl e1)
        with w have "write_all repr c2 bn t mb 1 quizzes = Inl e1"
          by (cases "write_all repr c2 bn t mb 1 quizzes") simp_all
        with a qv Inr show ?thesis by (simp add: package_def)
      next
        case a: (Inr es1)
        with w obtain es2 where b: "write_all repr c2 bn t mb 1 quizzes = Inr es2"
          and m: "map (\<lambda>z. (filename z, data z)) es1 = map (\<lambda>z. (filename z, data z)) es2"
          by (cases "write_all repr c2 bn t mb 1 quizzes") simp_all
        from s [OF m] a b qv Inr show ?thesis by (simp add: package_def)
      qed
    qed
  qed
  have l: "load_templates e1 = load_templates e2"
    unfolding load_templates_def assms(3,4) by (rule refl)
  show ?thesis
    using assms(1,2) l p
    by (auto simp: generate_xmls_def form_base_name_def Let_def split: option.splits sum.splits)
qed

theorem contents_deterministic_witness:
  "contents (generate_xmls example_repr small_env small_request)
     = contents (generate_xmls example_repr later_env small_request)
   \<and> contents (generate_xmls example_repr small_env small_request)
     = Some [(lit ''q_1.xml'', lit ''T7'')]
   \<and> generate_xmls example_repr small_env small_request
     \<noteq> generate_xmls example_repr later_env small_request"
proof -
  have 1: "xml_template_file small_env = xml_template_file later_env"
    and 2: "meta_block_file small_env = meta_block_file later_env"
    by (simp_all add: small_env_def later_env_def)
  note t = contents_deterministic [OF refl refl 1 2, of example_repr small_request]
  have l: "generate_xmls example_repr later_env small_request
     = SendFile [\<lparr>filename = lit ''q_1.xml'', data = lit ''T7'', date_time = 61\<rparr>] (lit ''q_xmls.zip'')"
    by (simp add: eval_defs later_env_def small_request_def small_quiz_def)
  show ?thesis using t small_run [of example_repr] l by (simp add: contents_def)
qed

text \<open>
  C10: the base name is stripped before use.  A value of whitespace only is rejected with
  400 exactly as a missing one is.  The form value is its stripped part between two runs of
  whitespace, the stripped part neither starts nor ends with whitespace, and the handler
  answers a request as it answers the same request sent with the stripped value.  A
  returned archive has the download name \<open><stripped>_xmls.zip\<close> and entries named
  \<open><stripped>_<i>.xml\<close> (as \<open>zipfile\<close> stores a name: cut at its first NUL); and the
  archive is returned, under these names, whenever the checks pass, every quiz record
  fills and the texts, the names and the header can be written.
\<close>

theorem base_name_stripped:
  assumes "strip (form_base_name req) = bn"
  shows "(list_all isspace v \<longrightarrow>
      generate_xmls repr ev (req\<lparr>base_name := Some v\<rparr>)
        = generate_xmls repr ev (req\<lparr>base_name := None\<rparr>)
      \<and> http_status (generate_xmls repr ev (req\<lparr>base_name := Some v\<rparr>)) = 400)
   \<and> (\<exists>l r. form_base_name req = l @ bn @ r \<and> list_all isspace l \<and> list_all isspace r)
   \<and> (bn \<noteq> [] \<longrightarrow> \<not> isspace (hd bn) \<and> \<not> isspace (last bn))
   \<and> generate_xmls repr ev req = generate_xmls repr ev (req\<lparr>base_name := Some bn\<rparr>)
   \<and> (generate_xmls repr ev req = SendFile entries download_name \<longrightarrow>
        bn \<noteq> []
      \<and> download_name = bn @ lit ''_xmls.zip''
      \<and> (\<forall>i < length entries.
            filename (entries ! i) = sanitize (bn @ lit ''_'' @ digits (i + 1) @ lit ''.xml'')))
   \<and> (0 \<notin> set bn \<longrightarrow>
        sanitize (bn @ lit ''_'' @ digits n @ lit ''.xml'') = bn @ lit ''_'' @ digits n @ lit ''.xml'')
   \<and> (quiz_json req = Some (Inr d) \<and> get_quizzes d = Inr qv \<and> iter qv = Inr quizzes
      \<and> xml_template_file ev = Inr t \<and> meta_block_file ev = Inr mb \<and> bn \<noteq> []
      \<and> list_all (\<lambda>quiz. case full_xml repr t mb quiz of
                            Inl e \<Rightarrow> False | Inr doc \<Rightarrow> encodable doc) quizzes
      \<and> (\<forall>i < length quizzes.
            writable_name (sanitize (bn @ lit ''_'' @ digits (i + 1) @ lit ''.xml'')))
      \<and> encodable bn \<and> header_safe bn
      \<longrightarrow> http_status (generate_xmls repr ev req) = 200
        \<and> map_option (map filename) (archive_of (generate_xmls repr ev req))
            = Some (map (\<lambda>i. sanitize (bn @ lit ''_'' @ digits (i + 1) @ lit ''.xml''))
                      [0 ..< length quizzes]))"
proof (intro conjI impI)
  assume v: "list_all isspace v"
  then have "strip v = []" by (simp add: strip_Nil_iff list_all_iff)
  then have a: "generate_xmls repr ev (req\<lparr>base_name := Some v\<rparr>)
      = (case quiz_json req of None \<Rightarrow> Abort 400 (lit ''No JSON file part'')
         | Some f \<Rightarrow> Abort 400 (lit ''Base filename is required''))"
    by (simp add: generate_xmls_def form_base_name_def Let_def split: option.splits)
  have "strip [] = ([]::pystr)" by (simp add: strip_def)
  then have b: "generate_xmls repr ev (req\<lparr>base_name := None\<rparr>)
      = (case quiz_json req of None \<Rightarrow> Abort 400 (lit ''No JSON file part'')
         | Some f \<Rightarrow> Abort 400 (lit ''Base filename is required''))"
    by (simp add: generate_xmls_def form_base_name_def Let_def split: option.splits)
  show "generate_xmls repr ev (req\<lparr>base_name := Some v\<rparr>)
        = generate_xmls repr ev (req\<lparr>base_name := None\<rparr>)"
    using a b by simp
  show "http_status (generate_xmls repr ev (req\<lparr>base_name := Some v\<rparr>)) = 400"
    using a by (simp split: option.splits)
next
  show "\<exists>l r. form_base_name req = l @ bn @ r \<and> list_all isspace l \<and> list_all isspace r"
    using strip_decomp [of "form_base_name req"] assms by (simp add: list_all_iff)
next
  assume "bn \<noteq> []"
  then have ne: "strip (form_base_name req) \<noteq> []" using assms by simp
  show "\<not> isspace (hd bn)" using strip_ends(1) [OF ne] assms by simp
  show "\<not> isspace (last bn)" using strip_ends(2) [OF ne] assms by simp
next
  have "strip bn = bn" using strip_idem [of "form_base_name req"] assms by simp
  then have f: "strip (form_base_name (req\<lparr>base_name := Some bn\<rparr>)) = strip (form_base_name req)"
    using assms by (simp add: form_base_name_def)
  have q: "quiz_json (req\<lparr>base_name := Some bn\<rparr>) = quiz_json req" by simp
  show "generate_xmls repr ev req = generate_xmls repr ev (req\<lparr>base_name := Some bn\<rparr>)"
    unfolding generate_xmls_def f q by (rule refl)
next
  assume s: "generate_xmls repr ev req = SendFile entries download_name"
  from s obtain d t mb qv quizzes where
    *: "strip (form_base_name req) \<noteq> []"
       "write_all repr (clock ev) (strip (form_base_name req)) t mb 1 quizzes = Inr entries"
       "download_name = strip (form_base_name req) @ lit ''_xmls.zip''"
    by (rule generate_xmls_SendFile)
  show "bn \<noteq> []" using *(1) assms by simp
  show "download_name = bn @ lit ''_xmls.zip''" using *(3) assms by simp
  from *(2) have w: "write_all repr (clock ev) bn t mb 1 quizzes = Inr entries"
    using assms by simp
  show "\<forall>i < length entries.
            filename (entries ! i) = sanitize (bn @ lit ''_'' @ digits (i + 1) @ lit ''.xml'')"
    using w [unfolded write_all_Inr_iff] by (simp add: entry_name_def)
next
  assume "0 \<notin> set bn"
  then show "sanitize (bn @ lit ''_'' @ digits n @ lit ''.xml'')
      = bn @ lit ''_'' @ digits n @ lit ''.xml''"
    by (rule sanitize_entry_name)
next
  assume h: "quiz_json req = Some (Inr d) \<and> get_quizzes d = Inr qv \<and> iter qv = Inr quizzes
      \<and> xml_template_file ev = Inr t \<and> meta_block_file ev = Inr mb \<and> bn \<noteq> []
      \<and> list_all (\<lambda>quiz. case full_xml repr t mb quiz of
                            Inl e \<Rightarrow> False | Inr doc \<Rightarrow> encodable doc) quizzes
      \<and> (\<forall>i < length quizzes.
            writable_name (sanitize (bn @ lit ''_'' @ digits (i + 1) @ lit ''.xml'')))
      \<and> encodable bn \<and> header_safe bn"
  let ?name = "\<lambda>i. sanitize (bn @ lit ''_'' @ digits (i + 1) @ lit ''.xml'')"
  define doc where "doc i = (case full_xml repr t mb (quizzes ! i) of Inr x \<Rightarrow> x | Inl e \<Rightarrow> [])" for i
  define entries' where "entries' =
    map (\<lambda>i. \<lparr>filename = ?name i, data = doc i, date_time = clock ev (1 + i)\<rparr>) [0 ..< length quizzes]"
  have fx: "full_xml repr t mb (quizzes ! i) = Inr (doc i) \<and> encodable (doc i)"
    if "i < length quizzes" for i
  proof -
    from h that have "case full_xml repr t mb (quizzes ! i) of
                        Inl e \<Rightarrow> False | Inr doc \<Rightarrow> encodable doc"
      by (simp add: list_all_length)
    then show ?thesis by (simp add: doc_def split: sum.splits)
  qed
  have "write_all repr (clock ev) bn t mb 1 quizzes = Inr entries'"
    unfolding write_all_Inr_iff using h fx by (simp add: entries'_def entry_name_def)
  moreover have "encodable (bn @ lit ''_xmls.zip'')" "header_safe (bn @ lit ''_xmls.zip'')"
    using h by (simp_all add: download_name_ok)
  ultimately have g: "generate_xmls repr ev req = SendFile entries' (bn @ lit ''_xmls.zip'')"
    using generate_xmls_SendFile_iff [of req d bn ev t mb qv quizzes repr entries'
        "bn @ lit ''_xmls.zip''"] h assms
    by blast
  show "http_status (generate_xmls repr ev req) = 200" using g by simp
  show "map_option (map filename) (archive_of (generate_xmls repr ev req))
      = Some (map ?name [0 ..< length quizzes])"
    using g by (simp add: entries'_def comp_def)
qed

theorem base_name_stripped_witness:
  "generate_xmls example_repr small_env (small_request\<lparr>base_name := Some (lit ''  '')\<rparr>)
     = generate_xmls example_repr small_env (small_request\<lparr>base_name := None\<rparr>)
   \<and> http_status (generate_xmls example_repr small_env
         (small_request\<lparr>base_name := Some (lit ''  '')\<rparr>)) = 400
   \<and> generate_xmls example_repr example_env example_request
     = generate_xmls example_repr example_env (example_request\<lparr>base_name := Some (lit ''math'')\<rparr>)
   \<and> http_status (generate_xmls example_repr example_env example_request) = 200
   \<and> map_option (map filename) (archive_of (generate_xmls example_repr example_env example_request))
     = Some [lit ''math_1.xml'']"
proof -
  have 1: "list_all isspace (lit ''  '')" by (simp add: lit_def isspace_def)
  note a = base_name_stripped [OF refl, of "lit ''  ''" example_repr small_env small_request]
  have s: "strip (form_base_name example_request) = lit ''math''"
    by (simp add: example_request_def form_base_name_def strip_math)
  note b = base_name_stripped [OF s, of _ example_repr example_env _ _ 1 example_data
      "JList [example_quiz]" "[example_quiz]" example_template example_meta]
  from a 1 have a':
    "generate_xmls example_repr small_env (small_request\<lparr>base_name := Some (lit ''  '')\<rparr>)
       = generate_xmls example_repr small_env (small_request\<lparr>base_name := None\<rparr>)
     \<and> http_status (generate_xmls example_repr small_env
         (small_request\<lparr>base_name := Some (lit ''  '')\<rparr>)) = 400"
    by blast
  from b have i: "generate_xmls example_repr example_env example_request
     = generate_xmls example_repr example_env (example_request\<lparr>base_name := Some (lit ''math'')\<rparr>)"
    by blast
  have h1: "quiz_json example_request = Some (Inr example_data)"
    by (simp add: example_request_def)
  have h2: "get_quizzes example_data = Inr (JList [example_quiz])"
    by (simp add: get_quizzes_def example_data_def)
  have h3: "iter (JList [example_quiz]) = Inr [example_quiz]" by simp
  have h4: "xml_template_file example_env = Inr example_template"
    and h5: "meta_block_file example_env = Inr example_meta"
    by (simp_all add: example_env_def)
  have h6: "lit ''math'' \<noteq> []" by (simp add: lit_def)
  have f: "full_xml example_repr example_template example_meta example_quiz
       = Inr (lit ''Quiz A:2+2? 3456 false,true,false,false<id>1</id>'')"
    by (simp add: eval_defs example_quiz_def example_question_def example_template_def
         example_meta_def)
  have e: "encodable (lit ''Quiz A:2+2? 3456 false,true,false,false<id>1</id>'')"
    by (simp add: eval_defs)
  have h7: "list_all (\<lambda>quiz. case full_xml example_repr example_template example_meta quiz of
                            Inl e \<Rightarrow> False | Inr doc \<Rightarrow> encodable doc) [example_quiz]"
    using f e by simp
  have n: "sanitize (lit ''math'' @ lit ''_'' @ digits (0 + 1) @ lit ''.xml'') = lit ''math_1.xml''"
    by (simp add: eval_defs)
  have w: "writable_name (lit ''math_1.xml'')"
    by (simp add: writable_name_def eval_defs)
  have h8: "\<forall>i < length [example_quiz].
      writable_name (sanitize (lit ''math'' @ lit ''_'' @ digits (i + 1) @ lit ''.xml''))"
    using n w by simp
  have h9: "encodable (lit ''math'')" "header_safe (lit ''math'')"
    by (simp_all add: eval_defs)
  from b h1 h2 h3 h4 h5 h6 h7 h8 h9 have c:
    "http_status (generate_xmls example_repr example_env example_request) = 200
     \<and> map_option (map filename) (archive_of (generate_xmls example_repr example_env example_request))
         = Some (map (\<lambda>i. sanitize (lit ''math'' @ lit ''_'' @ digits (i + 1) @ lit ''.xml''))
                   [0 ..< length [example_quiz]])"
    by blast
  have m: "map (\<lambda>i. sanitize (lit ''math'' @ lit ''_'' @ digits (i + 1) @ lit ''.xml''))
             [0 ..< length [example_quiz]] = [lit ''math_1.xml'']"
    using n by simp
  from c have c1: "http_status (generate_xmls example_repr example_env example_request) = 200"
    by (rule conjunct1)
  from c have c2: "map_option (map filename)
        (archive_of (generate_xmls example_repr example_env example_request))
      = Some [lit ''math_1.xml'']"
    unfolding m by (rule conjunct2)
  show ?thesis
    by (intro conjI) (rule a' [THEN conjunct1] a' [THEN conjunct2] i c1 c2)+
qed

text \<open>
  C2, as the code has it: when the checks pass and a quiz record in the list lacks a required
  key, the handler ends in an uncaught exception (the KeyError of \<open>TITLE\<close> when the first
  quiz lacks its title): the status is 500, not 400, and no archive is returned.
\<close>

theorem missing_key_raises:
  assumes "quiz_json req = Some (Inr d)" and "strip (form_base_name req) \<noteq> []"
    and "xml_template_file ev = Inr t" and "meta_block_file ev = Inr mb"
    and "get_quizzes d = Inr qv" and "iter qv = Inr quizzes"
    and "quiz \<in> set quizzes" and "quiz_lacks_key quiz"
  shows "(\<exists>e. generate_xmls repr ev req = Raised e)
       \<and> http_status (generate_xmls repr ev req) = 500
       \<and> archive_of (generate_xmls repr ev req) = None
       \<and> (lacks_key (hd quizzes) (lit ''TITLE'') \<longrightarrow>
            generate_xmls repr ev req = Raised (KeyError (lit ''TITLE'')))"
proof -
  let ?bn = "strip (form_base_name req)"
  have g: "generate_xmls repr ev req =
      (case write_all repr (clock ev) ?bn t mb 1 quizzes of
         Inl e \<Rightarrow> Raised e | Inr entries \<Rightarrow> send_file entries (?bn @ lit ''_xmls.zip''))"
    using assms(1-6) by (simp add: generate_xmls_def load_templates_def package_def Let_def)
  from full_xml_lacks [OF assms(8)] obtain e where "full_xml repr t mb quiz = Inl e" by blast
  from write_all_fails [OF assms(7) this] obtain e' where
    w: "write_all repr (clock ev) ?bn t mb 1 quizzes = Inl e'" by blast
  have r: "generate_xmls repr ev req = Raised e'" using g w by simp
  have "generate_xmls repr ev req = Raised (KeyError (lit ''TITLE''))"
    if "lacks_key (hd quizzes) (lit ''TITLE'')"
  proof -
    from assms(7) obtain a rest where q: "quizzes = a # rest" by (cases quizzes) auto
    with that have "full_xml repr t mb a = Inl (KeyError (lit ''TITLE''))"
      by (simp add: full_xml_def fill_template_def lacks_key_getitem)
    then show ?thesis using g q by simp
  qed
  with r show ?thesis by simp
qed

theorem missing_key_raises_witness:
  "generate_xmls example_repr small_env no_title_request = Raised (KeyError (lit ''TITLE''))
   \<and> http_status (generate_xmls example_repr small_env no_title_request) = 500
   \<and> archive_of (generate_xmls example_repr small_env no_title_request) = None"
proof -
  have 1: "quiz_json no_title_request
      = Some (Inr (JDict [(lit ''quizzes'', JList [no_title_quiz])]))"
    by (simp add: no_title_request_def)
  have 2: "strip (form_base_name no_title_request) \<noteq> []"
    by (simp add: no_title_request_def form_base_name_def strip_q) (simp add: lit_def)
  have 3: "xml_template_file small_env = Inr (lit ''{{TITLE}}'')"
    and 4: "meta_block_file small_env = Inr (lit ''{{ID}}'')"
    by (simp_all add: small_env_def)
  have 5: "get_quizzes (JDict [(lit ''quizzes'', JList [no_title_quiz])])
      = Inr (JList [no_title_quiz])"
    by (simp add: get_quizzes_def)
  have 6: "iter (JList [no_title_quiz]) = Inr [no_title_quiz]" by simp
  have 7: "no_title_quiz \<in> set [no_title_quiz]" by simp
  have k: "lacks_key no_title_quiz (lit ''TITLE'')"
    by (simp add: lacks_key_def no_title_quiz_def lit_def)
  then have 8: "quiz_lacks_key no_title_quiz" by (simp add: quiz_lacks_key_def)
  from missing_key_raises [OF 1 2 3 4 5 6 7 8, of example_repr] k show ?thesis by simp
qed

text \<open>C2 as stated fails: a quiz record without \<open>TITLE\<close> is not answered with 400.\<close>

theorem missing_key_not_400:
  "generate_xmls example_repr small_env no_title_request = Raised (KeyError (lit ''TITLE''))
   \<and> http_status (generate_xmls example_repr small_env no_title_request) = 500"
  by (simp add: eval_defs small_env_def no_title_request_def no_title_quiz_def)

section \<open>Claims about the template filler\<close>

text \<open>
  C1: for a question at position \<open>qnum\<close> whose \<open>CORRECT\<close> is \<open>k\<close> with \<open>0 \<le> k \<le> 3\<close>,
  \<open>markRight\<close> replaces the four placeholders \<open>{{Option_<qnum>1}}\<close> to \<open>{{Option_<qnum>4}}\<close>:
  the one at position \<open>k + 1\<close>, and only that one, by \<open>true\<close>, the other three by \<open>false\<close>.
  None of the four placeholders is left in its result, whatever the text it works on, and
  the question step always ends with it, however many answers the question has.
\<close>

theorem markRight_marks:
  assumes "0 \<le> k" and "k \<le> 3"
  shows "markRight c qnum (JInt k)
           = replace_all c
               (map (\<lambda>i. (option_name qnum i, if int i = k + 1 then lit ''true'' else lit ''false''))
                  [1, 2, 3, 4])
       \<and> filter (\<lambda>i. int i = k + 1) [1, 2, 3, 4] = [nat k + 1]
       \<and> (\<forall>i \<in> {1, 2, 3, 4}.
             \<not> sublist (option_placeholder qnum i) (markRight c qnum (JInt k))
           \<and> subst (option_substs qnum (JInt k)) (Hole (option_name qnum i))
               = Txt (if int i = k + 1 then lit ''true'' else lit ''false''))
       \<and> (well_formed ts \<longrightarrow>
             markRight (render ts) qnum (JInt k)
               = render (map (subst (option_substs qnum (JInt k))) ts))
       \<and> (fill_question c qnum q = Inr r \<and> getitem q (lit ''CORRECT'') = Inr (JInt k) \<longrightarrow>
             (\<forall>i \<in> {1, 2, 3, 4}. \<not> sublist (option_placeholder qnum i) r))"
proof (intro conjI ballI impI)
  have e: "(int i - 1 = k) = (int i = k + 1)" for i by auto
  show "markRight c qnum (JInt k)
           = replace_all c
               (map (\<lambda>i. (option_name qnum i, if int i = k + 1 then lit ''true'' else lit ''false''))
                  [1, 2, 3, 4])"
    unfolding markRight_replace_all option_substs_def by (simp add: e)
  from assms have "k = 0 \<or> k = 1 \<or> k = 2 \<or> k = 3" by auto
  then show "filter (\<lambda>i. int i = k + 1) [1, 2, 3, 4] = [nat k + 1]" by auto
next
  fix i :: nat assume i: "i \<in> {1, 2, 3, 4}"
  show "\<not> sublist (option_placeholder qnum i) (markRight c qnum (JInt k))"
    by (rule markRight_resolves [OF i])
  have e: "(int j - 1 = k) = (int j = k + 1)" for j by auto
  from i show "subst (option_substs qnum (JInt k)) (Hole (option_name qnum i))
               = Txt (if int i = k + 1 then lit ''true'' else lit ''false'')"
    by (auto simp: option_substs_def)
next
  assume "well_formed ts"
  from replace_all_render [OF this option_substs_brace_free]
  show "markRight (render ts) qnum (JInt k)
               = render (map (subst (option_substs qnum (JInt k))) ts)"
    by (simp add: markRight_replace_all)
next
  fix i :: nat
  assume a: "fill_question c qnum q = Inr r \<and> getitem q (lit ''CORRECT'') = Inr (JInt k)"
    and i: "i \<in> {1, 2, 3, 4}"
  from a obtain c2 where "r = markRight c2 qnum (JInt k)"
    by (auto simp: fill_question_def split: sum.splits)
  then show "\<not> sublist (option_placeholder qnum i) r"
    using markRight_resolves [OF i] by simp
qed

theorem markRight_marks_witness:
  "markRight (lit ''{{Option_11}},{{Option_12}},{{Option_13}},{{Option_14}}'') 1 (JInt 1)
     = lit ''false,true,false,false''
   \<and> \<not> sublist (option_placeholder 1 2)
         (markRight (lit ''{{Option_11}},{{Option_12}},{{Option_13}},{{Option_14}}'') 1 (JInt 1))
   \<and> render (map (subst (option_substs 1 (JInt 1))) option_tokens)
     = lit ''false,true,false,false''"
proof -
  have h: "(0::int) \<le> 1" "(1::int) \<le> 3" by simp_all
  note m = markRight_marks [OF h, of "lit ''{{Option_11}},{{Option_12}},{{Option_13}},{{Option_14}}''" 1
      option_tokens]
  have r: "render option_tokens = lit ''{{Option_11}},{{Option_12}},{{Option_13}},{{Option_14}}''"
    by (simp add: option_tokens_def render_def placeholder_def lit_def)
  have w: "well_formed option_tokens" by (simp add: option_tokens_def well_formed_def lit_def)
  have 1: "markRight (lit ''{{Option_11}},{{Option_12}},{{Option_13}},{{Option_14}}'') 1 (JInt 1)
     = replace_all (lit ''{{Option_11}},{{Option_12}},{{Option_13}},{{Option_14}}'')
               (map (\<lambda>i. (option_name 1 i, if int i = 1 + 1 then lit ''true'' else lit ''false''))
                  [1, 2, 3, 4])"
    using m by blast
  have 2: "replace_all (lit ''{{Option_11}},{{Option_12}},{{Option_13}},{{Option_14}}'')
               (map (\<lambda>i. (option_name 1 i, if int i = 1 + 1 then lit ''true'' else lit ''false''))
                  [1, 2, 3, 4]) = lit ''false,true,false,false''"
    by (simp add: option_name_def placeholder_def digits_small lit_def replace_Nil replace_Cons)
  have 3: "\<not> sublist (option_placeholder 1 2)
         (markRight (lit ''{{Option_11}},{{Option_12}},{{Option_13}},{{Option_14}}'') 1 (JInt 1))"
    using m by blast
  have "markRight (render option_tokens) 1 (JInt 1)
               = render (map (subst (option_substs 1 (JInt 1))) option_tokens)"
    using m w by blast
  with 1 2 3 r show ?thesis by simp
qed

text \<open>
  C4: the answer loop replaces \<open>{{ANSWER_<qnum><letter>}}\<close> by the answer text for each answer
  present, and for those only, the letter of the answer at position \<open>anum\<close> being
  \<open>'A' + anum - 1\<close>; in a well-formed template the placeholder of a present answer becomes
  its text and that of an absent answer stays; and a placeholder of an absent answer that
  occurs in the template still occurs in the filled template (no question having more than
  58 answers, so that no letter is a brace).
\<close>

theorem answer_placeholders:
  "(fill_answers c qnum 1 answers = Inr r \<longrightarrow>
       r = replace_all c (answer_substs qnum 1 answers)
     \<and> map fst (answer_substs qnum 1 answers)
         = map (answer_name qnum) [1 ..< Suc (length answers)]
     \<and> map (JStr \<circ> snd) (answer_substs qnum 1 answers) = answers)
   \<and> (fill_answers (render ts) qnum 1 answers = Inr r' \<and> well_formed ts
        \<and> length answers \<le> 58 \<and> list_all (\<lambda>x. 123 \<notin> set (the_str x)) answers \<longrightarrow>
       r' = render (map (subst (answer_substs qnum 1 answers)) ts)
     \<and> (\<forall>anum. 0 < anum \<longrightarrow>
           subst (answer_substs qnum 1 answers) (Hole (answer_name qnum anum))
             = (if anum \<le> length answers then Txt (the_str (answers ! (anum - 1)))
                else Hole (answer_name qnum anum))))
   \<and> (fill_template t quiz = Inr r'' \<and> at_most_58_answers quiz
        \<and> 0 < qnum \<and> 0 < anum \<and> anum \<le> 58
        \<and> (qnum \<le> length (items (field quiz (lit ''QUESTIONS''))) \<longrightarrow>
             length (items (field (items (field quiz (lit ''QUESTIONS'')) ! (qnum - 1))
                       (lit ''ANSWERS''))) < anum)
        \<and> sublist (answer_placeholder qnum [64 + anum]) t \<longrightarrow>
       sublist (answer_placeholder qnum [64 + anum]) r''
     \<and> subst (quiz_substs quiz) (Hole (answer_name qnum anum)) = Hole (answer_name qnum anum))"
proof (intro conjI impI allI)
  assume a: "fill_answers c qnum 1 answers = Inr r"
  show "r = replace_all c (answer_substs qnum 1 answers)"
    by (rule fill_answers_replace_all [OF a]) simp
  show "map fst (answer_substs qnum 1 answers) = map (answer_name qnum) [1 ..< Suc (length answers)]"
    using answer_substs_fst [of qnum 1 answers] by simp
  have "map (JStr \<circ> snd) (answer_substs qnum 1 answers) = map JStr (map snd (answer_substs qnum 1 answers))"
    by simp
  also have "\<dots> = map (JStr \<circ> the_str) answers" by (simp add: answer_substs_snd)
  also have "\<dots> = answers" by (rule fill_answers_strings [OF a])
  finally show "map (JStr \<circ> snd) (answer_substs qnum 1 answers) = answers" .
next
  assume a: "fill_answers (render ts) qnum 1 answers = Inr r' \<and> well_formed ts
        \<and> length answers \<le> 58 \<and> list_all (\<lambda>x. 123 \<notin> set (the_str x)) answers"
  then have "list_all (\<lambda>(n, v). 123 \<notin> set n \<and> 125 \<notin> set n \<and> 123 \<notin> set v)
           (answer_substs qnum 1 answers)"
    by (intro answer_substs_brace_free) simp_all
  from replace_all_render [OF _ this, of ts] a fill_answers_replace_all [of "render ts" qnum 1 answers r']
  show "r' = render (map (subst (answer_substs qnum 1 answers)) ts)" by simp
next
  fix anum' :: nat
  assume "0 < anum'"
  then show "subst (answer_substs qnum 1 answers) (Hole (answer_name qnum anum'))
             = (if anum' \<le> length answers then Txt (the_str (answers ! (anum' - 1)))
                else Hole (answer_name qnum anum'))"
    by (auto simp: answer_substs_lookup)
next
  assume a: "fill_template t quiz = Inr r'' \<and> at_most_58_answers quiz
        \<and> 0 < qnum \<and> 0 < anum \<and> anum \<le> 58
        \<and> (qnum \<le> length (items (field quiz (lit ''QUESTIONS''))) \<longrightarrow>
             length (items (field (items (field quiz (lit ''QUESTIONS'')) ! (qnum - 1))
                       (lit ''ANSWERS''))) < anum)
        \<and> sublist (answer_placeholder qnum [64 + anum]) t"
  then have p: "answer_placeholder qnum [64 + anum] = placeholder (answer_name qnum anum)"
    by (simp add: answer_placeholder_name)
  have x: "123 \<notin> set (answer_name qnum anum)" "125 \<notin> set (answer_name qnum anum)"
    using a by (simp_all add: brace_free_names)
  have n: "list_all (\<lambda>(n, v). 123 \<notin> set n \<and> 125 \<notin> set n) (quiz_substs quiz)"
    using a by (intro quiz_substs_brace_free) simp
  have ab: "answer_name qnum anum \<notin> fst ` set (quiz_substs quiz)"
    using a by (intro absent_answer_name) simp_all
  from a have "sublist (placeholder (answer_name qnum anum)) t" by (simp add: p)
  from preserved_by_replace_all [OF x n ab this] a
  show "sublist (answer_placeholder qnum [64 + anum]) r''"
    using fill_template_replace_all [of t quiz r''] by (simp add: p)
  from ab have "map_of (quiz_substs quiz) (answer_name qnum anum) = None"
    by (simp add: map_of_eq_None_iff)
  then show "subst (quiz_substs quiz) (Hole (answer_name qnum anum)) = Hole (answer_name qnum anum)"
    by simp
qed

theorem answer_placeholders_witness:
  "fill_template (lit ''{{ANSWER_1C}}{{ANSWER_1D}}'') three_answer_quiz
     = Inr (lit ''5{{ANSWER_1D}}'')
   \<and> sublist (answer_placeholder 1 [64 + 4]) (lit ''5{{ANSWER_1D}}'')
   \<and> fill_answers (lit ''{{ANSWER_1C}}{{ANSWER_1D}}'') 1 1 three_answers
     = Inr (replace_all (lit ''{{ANSWER_1C}}{{ANSWER_1D}}'') (answer_substs 1 1 three_answers))
   \<and> map fst (answer_substs 1 1 three_answers)
     = [lit ''ANSWER_1A'', lit ''ANSWER_1B'', lit ''ANSWER_1C'']
   \<and> subst (answer_substs 1 1 three_answers) (Hole (answer_name 1 3)) = Txt (lit ''5'')
   \<and> subst (answer_substs 1 1 three_answers) (Hole (answer_name 1 4)) = Hole (answer_name 1 4)
   \<and> subst (quiz_substs three_answer_quiz) (Hole (answer_name 1 4)) = Hole (answer_name 1 4)"
proof -
  let ?t = "lit ''{{ANSWER_1C}}{{ANSWER_1D}}''"
  let ?ts = "[Hole (lit ''ANSWER_1C''), Hole (lit ''ANSWER_1D'')]"
  have f: "fill_template ?t three_answer_quiz = Inr (lit ''5{{ANSWER_1D}}'')"
    by (simp add: eval_defs three_answer_quiz_def three_answers_def)
  have g: "fill_answers ?t 1 1 three_answers = Inr (lit ''5{{ANSWER_1D}}'')"
    by (simp add: eval_defs three_answers_def)
  have rt: "render ?ts = ?t" by (simp add: render_def placeholder_def lit_def)
  have wf: "well_formed ?ts" by (simp add: well_formed_def lit_def)
  have pl: "list_all (\<lambda>x. 123 \<notin> set (the_str x)) three_answers"
    by (simp add: three_answers_def lit_def)
  have am: "at_most_58_answers three_answer_quiz"
    by (simp add: token_defs three_answer_quiz_def three_answers_def lit_def)
  have q: "items (field three_answer_quiz (lit ''QUESTIONS''))
      = [JDict [(lit ''QUESTION'', JStr (lit ''2+2?'')), (lit ''ANSWERS'', JList three_answers),
                (lit ''CORRECT'', JInt 1)]]"
    by (simp add: token_defs three_answer_quiz_def lit_def)
  have a: "items (field (JDict [(lit ''QUESTION'', JStr (lit ''2+2?'')),
                (lit ''ANSWERS'', JList three_answers), (lit ''CORRECT'', JInt 1)]) (lit ''ANSWERS''))
      = three_answers"
    by (simp add: token_defs lit_def)
  have s: "sublist (answer_placeholder 1 [64 + 4]) ?t"
    by (simp add: answer_placeholder_def lit_def digits_small sublist_Cons_right)
  note th = answer_placeholders [of ?t 1 three_answers "lit ''5{{ANSWER_1D}}''" ?ts
      "lit ''5{{ANSWER_1D}}''" ?t three_answer_quiz "lit ''5{{ANSWER_1D}}''" 4]
  from th g have 1: "lit ''5{{ANSWER_1D}}'' = replace_all ?t (answer_substs 1 1 three_answers)"
    and 2: "map fst (answer_substs 1 1 three_answers)
         = map (answer_name 1) [1 ..< Suc (length three_answers)]"
    by blast+
  have n2: "map (answer_name 1) [1 ..< Suc (length three_answers)]
     = [lit ''ANSWER_1A'', lit ''ANSWER_1B'', lit ''ANSWER_1C'']"
    by (simp add: three_answers_def answer_name_def digits_small lit_def upt_rec)
  from th g rt wf pl have 3: "\<forall>anum. 0 < anum \<longrightarrow>
           subst (answer_substs 1 1 three_answers) (Hole (answer_name 1 anum))
             = (if anum \<le> length three_answers then Txt (the_str (three_answers ! (anum - 1)))
                else Hole (answer_name 1 anum))"
    by (simp add: three_answers_def)
  from 3 have 4: "subst (answer_substs 1 1 three_answers) (Hole (answer_name 1 3)) = Txt (lit ''5'')"
    by (simp add: three_answers_def)
  from 3 have 5: "subst (answer_substs 1 1 three_answers) (Hole (answer_name 1 4))
      = Hole (answer_name 1 4)"
    by (simp add: three_answers_def)
  from th f am q a s have 6: "sublist (answer_placeholder 1 [64 + 4]) (lit ''5{{ANSWER_1D}}'')"
    and 7: "subst (quiz_substs three_answer_quiz) (Hole (answer_name 1 4)) = Hole (answer_name 1 4)"
    by (simp_all add: three_answers_def)
  from f g 1 2 n2 4 5 6 7 show ?thesis by simp
qed

text \<open>
  C7, as the code has it: for a well-formed template and a quiz none of whose substituted texts
  holds an opening brace, every \<open>{{TITLE}}\<close> of the template is replaced by the title and
  no \<open>{{TITLE}}\<close> is left in the filled quiz template.
\<close>

theorem title_replaced:
  assumes "well_formed ts" and "at_most_58_answers quiz" and "plain_values quiz"
    and "fill_template (render ts) quiz = Inr r"
  shows "r = render (map (subst (quiz_substs quiz)) ts)
       \<and> getitem quiz (lit ''TITLE'') = Inr (JStr (the_str (field quiz (lit ''TITLE''))))
       \<and> subst (quiz_substs quiz) (Hole (lit ''TITLE''))
           = Txt (the_str (field quiz (lit ''TITLE'')))
       \<and> \<not> sublist (lit ''{{TITLE}}'') r"
proof -
  let ?\<sigma> = "quiz_substs quiz"
  note f = fill_template_render [OF assms]
  have s: "subst ?\<sigma> (Hole (lit ''TITLE'')) = Txt (the_str (field quiz (lit ''TITLE'')))"
    by (simp add: quiz_substs_def)
  have g: "getitem quiz (lit ''TITLE'') = Inr (JStr (the_str (field quiz (lit ''TITLE''))))"
  proof -
    from assms(4) obtain tv title where
      "getitem quiz (lit ''TITLE'') = Inr tv" "as_str tv = Inr title"
      by (auto simp: fill_template_def split: sum.splits)
    then show ?thesis by (cases tv) (simp_all add: field_def)
  qed
  have "Hole (lit ''TITLE'') \<notin> set (map (subst ?\<sigma>) ts)"
  proof
    assume "Hole (lit ''TITLE'') \<in> set (map (subst ?\<sigma>) ts)"
    then obtain t where "subst ?\<sigma> t = Hole (lit ''TITLE'')" by auto
    then show False using s by (cases t) (auto split: option.splits)
  qed
  from no_hole_no_placeholder [OF f(2) brace_free_names(1,2) this] f(1)
  have "\<not> sublist (lit ''{{TITLE}}'') r" by (simp add: title_placeholder_name)
  with f(1) s g show ?thesis by simp
qed

theorem title_replaced_witness:
  "fill_template (render example_tokens) example_quiz
     = Inr (lit ''Quiz A:2+2? 3456 false,true,false,false'')
   \<and> render (map (subst (quiz_substs example_quiz)) example_tokens)
     = lit ''Quiz A:2+2? 3456 false,true,false,false''
   \<and> \<not> sublist (lit ''{{TITLE}}'') (lit ''Quiz A:2+2? 3456 false,true,false,false'')"
proof -
  have f: "fill_template (render example_tokens) example_quiz
     = Inr (lit ''Quiz A:2+2? 3456 false,true,false,false'')"
    using example_filled by (simp add: render_example)
  from title_replaced [OF example_well_formed example_at_most_58 example_plain f] have
    a: "lit ''Quiz A:2+2? 3456 false,true,false,false''
        = render (map (subst (quiz_substs example_quiz)) example_tokens)"
    and b: "\<not> sublist (lit ''{{TITLE}}'') (lit ''Quiz A:2+2? 3456 false,true,false,false'')"
    by blast+
  show ?thesis by (intro conjI) (rule f a [symmetric] b)+
qed

text \<open>
  C7 as stated fails: a question text is inserted after the title step, so a \<open>{{TITLE}}\<close>
  in it reaches the output although the title is plain.
\<close>

theorem title_placeholder_remains:
  "full_xml example_repr (lit ''{{TITLE}}: {{QUESTION_1}}'') (lit ''{{ID}}'') echo_quiz
     = Inr (lit ''Quiz: {{TITLE}}?1'')
   \<and> sublist (lit ''{{TITLE}}'') (lit ''Quiz: {{TITLE}}?1'')"
  by (simp add: eval_defs echo_quiz_def sublist_Cons_right)

text \<open>
  C3, as the code has it: a single replacement puts its value, whatever it holds, in place of
  each occurrence of its placeholder and scans none of it again; the filler is a sequence
  of such replacements on one working copy, so that its result is that of a single pass
  over the template when no substituted text holds an opening brace.
\<close>

theorem single_pass:
  assumes "well_formed ts"
  shows "(123 \<notin> set n \<and> 125 \<notin> set n \<longrightarrow>
            replace (render ts) (placeholder n) v = render (map (subst1 n v) ts))
       \<and> (fill_template t quiz = Inr r' \<longrightarrow> r' = replace_all t (quiz_substs quiz))
       \<and> (at_most_58_answers quiz \<and> plain_values quiz
            \<and> fill_template (render ts) quiz = Inr r \<longrightarrow>
          r = render (map (subst (quiz_substs quiz)) ts))"
  using replace_render [OF assms] fill_template_replace_all fill_template_render(1) [OF assms]
  by blast

theorem single_pass_witness:
  "replace (lit ''{{TITLE}}/{{TITLE}}'') (lit ''{{TITLE}}'') (lit ''a{{TITLE}}'')
     = lit ''a{{TITLE}}/a{{TITLE}}''
   \<and> render (map (subst (quiz_substs example_quiz)) example_tokens)
     = lit ''Quiz A:2+2? 3456 false,true,false,false''"
proof -
  have f: "fill_template (render example_tokens) example_quiz
     = Inr (lit ''Quiz A:2+2? 3456 false,true,false,false'')"
    using example_filled by (simp add: render_example)
  have w: "well_formed title_tokens" by (simp add: title_tokens_def well_formed_def lit_def)
  have n: "123 \<notin> set (lit ''TITLE'') \<and> 125 \<notin> set (lit ''TITLE'')" by (simp add: lit_def)
  from single_pass [OF w, of "lit ''TITLE''" "lit ''a{{TITLE}}''"] n
  have "replace (render title_tokens) (placeholder (lit ''TITLE'')) (lit ''a{{TITLE}}'')
      = render (map (subst1 (lit ''TITLE'') (lit ''a{{TITLE}}'')) title_tokens)" by blast
  then have 1: "replace (lit ''{{TITLE}}/{{TITLE}}'') (lit ''{{TITLE}}'') (lit ''a{{TITLE}}'')
     = lit ''a{{TITLE}}/a{{TITLE}}''"
    by (simp add: title_tokens_def render_def placeholder_def lit_def)
  from single_pass [OF example_well_formed, where quiz = example_quiz]
    example_at_most_58 example_plain f
  have 2: "lit ''Quiz A:2+2? 3456 false,true,false,false''
      = render (map (subst (quiz_substs example_quiz)) example_tokens)" by blast
  show ?thesis by (intro conjI) (rule 1 2 [symmetric])+
qed

text \<open>
  C3 as stated fails: the title is inserted first and the question step scans it, so a
  title \<open>{{QUESTION_1}}\<close> does not reach the output; a single pass would have kept it.
\<close>

theorem later_steps_rescan:
  "fill_template (lit ''{{TITLE}}'') nested_quiz = Inr (lit ''X'')
   \<and> render (map (subst (quiz_substs nested_quiz)) [Hole (lit ''TITLE'')])
     = lit ''{{QUESTION_1}}''"
  by (simp add: eval_defs token_defs nested_quiz_def)

end
